theory Spec2Isabelle
  imports Main "HOL-Library.Sublist"
begin

section \<open>The output validator of nist-compliance-sentinel\<close>

text \<open>
  This theory embeds \<^verbatim>\<open>output_validator.py\<close>: the class \<^verbatim>\<open>NISTOutputValidator\<close> with
  its six rule checks, the report generator and the command-line entry point.

  Modelling decisions:
  \<^item> A Python \<^verbatim>\<open>str\<close> is the list of its code points, and a code point is an \<^typ>\<open>int\<close>
    (\<^verbatim>\<open>ord\<close> of the character). \<open>str\<close> turns a literal into such a list. The model does
    not bound the code points.
  \<^item> What the \<^verbatim>\<open>re\<close> module takes from the interpreter's Unicode tables (which
    characters are decimal digits, which are whitespace, which are equal under
    \<^verbatim>\<open>re.IGNORECASE\<close>) is written out for ASCII, where it is fixed, and is a parameter
    \<open>U\<close> of the model beyond ASCII. The theorems hold whatever these tables say; the
    one example that needs a character beyond ASCII names the tables it assumes.
  \<^item> \<^verbatim>\<open>print\<close> may raise (an encoding error, a closed pipe). The parameter \<open>console\<close>
    says for each \<^verbatim>\<open>print\<close> call of an invocation, by its number, whether it returns. The
    text printed is not modelled; no claim is about it.
  \<^item> Every operation of the source that can raise returns a sum, \<open>Inl\<close> the exception.
  \<^item> The exit code is the argument of \<^verbatim>\<open>sys.exit\<close>, or 1 where an exception escapes
    \<^verbatim>\<open>main\<close>. What the interpreter does at shutdown is outside the source and the model.
\<close>

subsection \<open>Python string primitives\<close>

type_synonym cp = int

type_synonym pystr = "cp list"

abbreviation ch :: "char \<Rightarrow> cp" where
  "ch c \<equiv> of_char c"

definition str :: "string \<Rightarrow> pystr" where
  "str s = map of_char s"

datatype pyerror = IndexError | KeyError | ReError | OutputError

text \<open>\<^verbatim>\<open>sub in s\<close>: \<open>sub\<close> occurs in \<open>s\<close> as a contiguous block.\<close>

fun starts_with :: "pystr \<Rightarrow> pystr \<Rightarrow> bool" where
  "starts_with [] s = True"
| "starts_with (p # ps) [] = False"
| "starts_with (p # ps) (c # cs) = (p = c \<and> starts_with ps cs)"

fun py_in :: "pystr \<Rightarrow> pystr \<Rightarrow> bool" where
  "py_in sub [] = (sub = [])"
| "py_in sub (c # cs) = (starts_with sub (c # cs) \<or> py_in sub cs)"

text \<open>\<^verbatim>\<open>s.split(sep)\<close> for a one-character separator.\<close>

fun split_on :: "cp \<Rightarrow> pystr \<Rightarrow> pystr list" where
  "split_on sep [] = [[]]"
| "split_on sep (c # cs) =
     (if c = sep then [] # split_on sep cs
      else (case split_on sep cs of
              [] \<Rightarrow> [[c]]
            | w # ws \<Rightarrow> (c # w) # ws))"

text \<open>\<^verbatim>\<open>xs[i]\<close> for a non-negative index.\<close>

fun index :: "'a list \<Rightarrow> nat \<Rightarrow> pyerror + 'a" where
  "index [] i = Inl IndexError"
| "index (x # xs) 0 = Inr x"
| "index (x # xs) (Suc i) = index xs i"

text \<open>\<^verbatim>\<open>s.replace(old, new)\<close> for one-character \<open>old\<close> and \<open>new\<close>.\<close>

definition replace :: "cp \<Rightarrow> cp \<Rightarrow> pystr \<Rightarrow> pystr" where
  "replace old new s = map (\<lambda>c. if c = old then new else c) s"

text \<open>\<^verbatim>\<open>sep.join(xs)\<close>.\<close>

fun join :: "pystr \<Rightarrow> pystr list \<Rightarrow> pystr" where
  "join sep [] = []"
| "join sep [x] = x"
| "join sep (x # y # ys) = x @ sep @ join sep (y # ys)"

text \<open>\<^verbatim>\<open>s[start:end]\<close> for non-negative bounds.\<close>

definition slice :: "pystr \<Rightarrow> nat \<Rightarrow> nat \<Rightarrow> pystr" where
  "slice s start end = take (end - start) (drop start s)"

text \<open>The decimal rendering of a length inside an f-string.\<close>

definition digit_char :: "nat \<Rightarrow> cp" where
  "digit_char d = 48 + int d"

fun str_nat :: "nat \<Rightarrow> pystr" where
  "str_nat n = (if n < 10 then [digit_char n] else str_nat (n div 10) @ [digit_char (n mod 10)])"

subsection \<open>The fragment of \<^verbatim>\<open>re\<close> the validator uses\<close>

text \<open>
  The validator's patterns are sequences of one-character atoms, each with an optional
  greedy quantifier: literals, \<^verbatim>\<open>.\<close>, the classes \<^verbatim>\<open>\d\<close> and \<^verbatim>\<open>\s\<close>, escaped
  punctuation, negated sets, and \<^verbatim>\<open>*\<close>, \<^verbatim>\<open>+\<close>, \<^verbatim>\<open>{n}\<close>. The parser accepts that
  fragment. On anything else, an invalid pattern or one that uses more of \<^verbatim>\<open>re\<close>, it
  answers \<open>None\<close>, which the callers turn into the exception \<^verbatim>\<open>re.error\<close>; every
  pattern the validator builds is shown below to compile.
\<close>

datatype setitem = SChr cp | SDigit | SSpace

datatype atom = Lit cp | AnyChar | Digit | Space | NegSet "setitem list"

type_synonym item = "atom \<times> nat \<times> nat option"

abbreviation bsl :: cp where
  "bsl \<equiv> 92"

abbreviation newline :: cp where
  "newline \<equiv> 10"

definition is_ascii_digit :: "cp \<Rightarrow> bool" where
  "is_ascii_digit c = (48 \<le> c \<and> c \<le> 57)"

definition is_alnum_ascii :: "cp \<Rightarrow> bool" where
  "is_alnum_ascii c = ((48 \<le> c \<and> c \<le> 57) \<or> (65 \<le> c \<and> c \<le> 90) \<or> (97 \<le> c \<and> c \<le> 122))"

definition is_special :: "cp \<Rightarrow> bool" where
  "is_special c = (c \<in> set (str ''.^$*+?{}[]()|'') \<or> c = bsl)"

fun set_escape :: "cp \<Rightarrow> setitem option" where
  "set_escape e =
     (if e = ch CHR ''d'' then Some SDigit
      else if e = ch CHR ''s'' then Some SSpace
      else if is_alnum_ascii e then None
      else Some (SChr e))"

fun parse_set :: "pystr \<Rightarrow> (setitem list \<times> pystr) option" where
  "parse_set [] = None"
| "parse_set (c # cs) =
     (if c = ch CHR '']'' then Some ([], cs)
      else if c = ch CHR ''-'' \<or> c = ch CHR ''['' then None
      else if c = bsl then
        (case cs of
           [] \<Rightarrow> None
         | e # cs' \<Rightarrow>
             (case set_escape e of
                None \<Rightarrow> None
              | Some it \<Rightarrow>
                  (case parse_set cs' of
                     None \<Rightarrow> None
                   | Some (its, r) \<Rightarrow> Some (it # its, r))))
      else
        (case parse_set cs of
           None \<Rightarrow> None
         | Some (its, r) \<Rightarrow> Some (SChr c # its, r)))"

fun parse_atom :: "pystr \<Rightarrow> (atom \<times> pystr) option" where
  "parse_atom [] = None"
| "parse_atom (c # cs) =
     (if c = ch CHR ''.'' then Some (AnyChar, cs)
      else if c = bsl then
        (case cs of
           [] \<Rightarrow> None
         | e # cs' \<Rightarrow>
             if e = ch CHR ''d'' then Some (Digit, cs')
             else if e = ch CHR ''s'' then Some (Space, cs')
             else if is_alnum_ascii e then None
             else Some (Lit e, cs'))
      else if c = ch CHR ''['' then
        (case cs of
           [] \<Rightarrow> None
         | e # cs' \<Rightarrow>
             if e = ch CHR ''^'' \<and> cs' \<noteq> [] \<and> hd cs' \<noteq> ch CHR '']'' then
               (case parse_set cs' of
                  None \<Rightarrow> None
                | Some (its, r) \<Rightarrow> Some (NegSet its, r))
             else None)
      else if is_special c then None
      else Some (Lit c, cs))"

fun parse_count :: "nat \<Rightarrow> pystr \<Rightarrow> (nat \<times> pystr) option" where
  "parse_count acc [] = None"
| "parse_count acc (c # cs) =
     (if c = ch CHR ''}'' then Some (acc, cs)
      else if is_ascii_digit c then parse_count (10 * acc + nat (c - 48)) cs
      else None)"

fun parse_quant :: "pystr \<Rightarrow> ((nat \<times> nat option) \<times> pystr) option" where
  "parse_quant [] = Some ((1, Some 1), [])"
| "parse_quant (c # cs) =
     (if c = ch CHR ''*'' then Some ((0, None), cs)
      else if c = ch CHR ''+'' then Some ((1, None), cs)
      else if c = ch CHR ''{'' then
        (case cs of
           [] \<Rightarrow> None
         | d # _ \<Rightarrow>
             if is_ascii_digit d then
               (case parse_count 0 cs of
                  None \<Rightarrow> None
                | Some (n, r) \<Rightarrow> Some ((n, Some n), r))
             else None)
      else Some ((1, Some 1), c # cs))"

lemma parse_set_shorter: "parse_set s = Some (its, r) \<Longrightarrow> length r < length s"
  by (induction s arbitrary: its r rule: parse_set.induct)
     (fastforce split: if_splits list.splits option.splits)+

lemma parse_atom_shorter: "parse_atom s = Some (a, r) \<Longrightarrow> length r < length s"
  by (cases s) (auto split: if_splits list.splits option.splits dest: parse_set_shorter)

lemma parse_count_shorter: "parse_count acc s = Some (n, r) \<Longrightarrow> length r < length s"
  by (induction acc s arbitrary: n r rule: parse_count.induct)
     (fastforce split: if_splits)+

lemma parse_quant_shorter: "parse_quant s = Some (q, r) \<Longrightarrow> length r \<le> length s"
  by (cases s) (auto split: if_splits list.splits option.splits dest: parse_count_shorter)

function parse :: "pystr \<Rightarrow> item list option" where
  "parse s =
     (if s = [] then Some []
      else
        (case parse_atom s of
           None \<Rightarrow> None
         | Some (a, r1) \<Rightarrow>
             (case parse_quant r1 of
                None \<Rightarrow> None
              | Some (q, r2) \<Rightarrow>
                  (case parse r2 of
                     None \<Rightarrow> None
                   | Some its \<Rightarrow> Some ((a, q) # its)))))"
  by pat_completeness auto
termination
  by (relation "measure length")
     (auto dest!: parse_atom_shorter parse_quant_shorter)

text \<open>\<^verbatim>\<open>re.compile\<close>: an invalid pattern raises \<^verbatim>\<open>re.error\<close>.\<close>

definition compile :: "pystr \<Rightarrow> pyerror + item list" where
  "compile pattern = (case parse pattern of None \<Rightarrow> Inl ReError | Some its \<Rightarrow> Inr its)"

text \<open>
  The interpreter's tables beyond ASCII: the decimal digits (category Nd) that \<^verbatim>\<open>\d\<close>
  matches, the whitespace that \<^verbatim>\<open>\s\<close> matches, and which text character a pattern
  character matches under \<^verbatim>\<open>re.IGNORECASE\<close> when one of the two is not ASCII.
\<close>

record unicode =
  uni_decimal :: "cp \<Rightarrow> bool"
  uni_space :: "cp \<Rightarrow> bool"
  uni_ignorecase :: "cp \<Rightarrow> cp \<Rightarrow> bool"

definition is_digit :: "unicode \<Rightarrow> cp \<Rightarrow> bool" where
  "is_digit U c = (if c < 128 then 48 \<le> c \<and> c \<le> 57 else uni_decimal U c)"

definition is_space :: "unicode \<Rightarrow> cp \<Rightarrow> bool" where
  "is_space U c =
     (if c < 128 then (9 \<le> c \<and> c \<le> 13) \<or> (28 \<le> c \<and> c \<le> 32) else uni_space U c)"

definition ascii_lower :: "cp \<Rightarrow> cp" where
  "ascii_lower c = (if 65 \<le> c \<and> c \<le> 90 then c + 32 else c)"

text \<open>
  A literal \<open>p\<close> of the pattern against a character \<open>c\<close> of the text; \<open>ic\<close> is the flag
  \<^verbatim>\<open>re.IGNORECASE\<close>.
\<close>

definition lit_match :: "unicode \<Rightarrow> bool \<Rightarrow> cp \<Rightarrow> cp \<Rightarrow> bool" where
  "lit_match U ic p c =
     (if ic then
        (if p < 128 \<and> c < 128 then ascii_lower c = ascii_lower p else uni_ignorecase U p c)
      else c = p)"

fun set_match :: "unicode \<Rightarrow> bool \<Rightarrow> setitem \<Rightarrow> cp \<Rightarrow> bool" where
  "set_match U ic (SChr p) c = lit_match U ic p c"
| "set_match U ic SDigit c = is_digit U c"
| "set_match U ic SSpace c = is_space U c"

fun atom_match :: "unicode \<Rightarrow> bool \<Rightarrow> atom \<Rightarrow> cp \<Rightarrow> bool" where
  "atom_match U ic (Lit p) c = lit_match U ic p c"
| "atom_match U ic AnyChar c = (c \<noteq> newline)"
| "atom_match U ic Digit c = is_digit U c"
| "atom_match U ic Space c = is_space U c"
| "atom_match U ic (NegSet its) c = (\<not> list_ex (\<lambda>it. set_match U ic it c) its)"

fun dec :: "nat option \<Rightarrow> nat option" where
  "dec None = None"
| "dec (Some h) = Some (h - 1)"

text \<open>
  The backtracking matcher, anchored at the head of the text. A quantified atom first
  takes one more character and matches the rest from there (greedy); only when that
  fails, and the lower bound is met, does it hand over to the following items. The
  answer is the text left after the match, so its length gives the match's end.
\<close>

fun match_here :: "unicode \<Rightarrow> bool \<Rightarrow> item list \<Rightarrow> pystr \<Rightarrow> pystr option" where
  "match_here U ic [] s = Some s"
| "match_here U ic ((a, lo, hi) # its) s =
     (case (if hi = Some 0 then None
            else (case s of
                    [] \<Rightarrow> None
                  | c # cs \<Rightarrow>
                      if atom_match U ic a c then match_here U ic ((a, lo - 1, dec hi) # its) cs
                      else None)) of
        Some r \<Rightarrow> Some r
      | None \<Rightarrow> if lo = 0 then match_here U ic its s else None)"

text \<open>
  \<^verbatim>\<open>re.search\<close> on compiled items: the leftmost start at which the matcher succeeds,
  as the pair (start, end) of the match object.
\<close>

fun search_items :: "unicode \<Rightarrow> bool \<Rightarrow> item list \<Rightarrow> pystr \<Rightarrow> (nat \<times> nat) option" where
  "search_items U ic its [] =
     (case match_here U ic its [] of None \<Rightarrow> None | Some r \<Rightarrow> Some (0, 0))"
| "search_items U ic its (c # cs) =
     (case match_here U ic its (c # cs) of
        Some r \<Rightarrow> Some (0, length (c # cs) - length r)
      | None \<Rightarrow>
          (case search_items U ic its cs of
             None \<Rightarrow> None
           | Some (st, en) \<Rightarrow> Some (Suc st, Suc en)))"

text \<open>
  \<^verbatim>\<open>re.findall\<close> on compiled items without groups: the matched strings, left to
  right, each search resuming where the last match ended. \<open>skip\<close> counts the characters
  of the current match still to step over. After an empty match the scan moves on by one
  character.
\<close>

fun findall_items :: "unicode \<Rightarrow> bool \<Rightarrow> item list \<Rightarrow> nat \<Rightarrow> pystr \<Rightarrow> pystr list" where
  "findall_items U ic its skip [] =
     (if skip = 0 then (case match_here U ic its [] of None \<Rightarrow> [] | Some r \<Rightarrow> [[]]) else [])"
| "findall_items U ic its skip (c # cs) =
     (if 0 < skip then findall_items U ic its (skip - 1) cs
      else
        (case match_here U ic its (c # cs) of
           None \<Rightarrow> findall_items U ic its 0 cs
         | Some r \<Rightarrow>
             (let n = length (c # cs) - length r
              in take n (c # cs) # findall_items U ic its (n - 1) cs)))"

definition re_search ::
  "unicode \<Rightarrow> pystr \<Rightarrow> pystr \<Rightarrow> bool \<Rightarrow> pyerror + (nat \<times> nat) option" where
  "re_search U pattern text ic =
     (case compile pattern of Inl e \<Rightarrow> Inl e | Inr its \<Rightarrow> Inr (search_items U ic its text))"

definition re_match :: "unicode \<Rightarrow> pystr \<Rightarrow> pystr \<Rightarrow> pyerror + bool" where
  "re_match U pattern text =
     (case compile pattern of
        Inl e \<Rightarrow> Inl e
      | Inr its \<Rightarrow> Inr (match_here U False its text \<noteq> None))"

definition re_findall :: "unicode \<Rightarrow> pystr \<Rightarrow> pystr \<Rightarrow> pyerror + pystr list" where
  "re_findall U pattern text =
     (case compile pattern of
        Inl e \<Rightarrow> Inl e
      | Inr its \<Rightarrow> Inr (findall_items U False its 0 text))"

subsection \<open>The validator's state and tables\<close>

text \<open>
  \<^verbatim>\<open>__init__\<close> sets two tables, which no method ever writes, and three empty lists
  of messages. The tables are constants here; the record holds the lists.
\<close>

record pub_info =
  date :: pystr
  title :: pystr

record validator =
  errors :: "pystr list"
  warnings :: "pystr list"
  passed_checks :: "pystr list"

definition verified_pubs :: "(pystr \<times> pub_info) list" where
  "verified_pubs =
     [(str ''800-218A'', \<lparr>date = str ''2024-07-26'', title = str ''SSDF Community Profile for Generative AI''\<rparr>),
      (str ''800-171r3'', \<lparr>date = str ''2024-05-15'', title = str ''Protecting Controlled Unclassified Information''\<rparr>),
      (str ''csf-2.0'', \<lparr>date = str ''2024-02-26'', title = str ''Cybersecurity Framework 2.0''\<rparr>),
      (str ''800-204D'', \<lparr>date = str ''2024-02-01'', title = str ''Software Supply Chain Security in DevSecOps''\<rparr>),
      (str ''800-218'', \<lparr>date = str ''2022-02-04'', title = str ''Secure Software Development Framework''\<rparr>),
      (str ''800-161r1'', \<lparr>date = str ''2022-05-13'', title = str ''Cybersecurity Supply Chain Risk Management''\<rparr>),
      (str ''800-215'', \<lparr>date = str ''2022-11-17'', title = str ''Guide to a Secure Enterprise Network Landscape''\<rparr>),
      (str ''800-53r5'', \<lparr>date = str ''2020-09-23'', title = str ''Security and Privacy Controls''\<rparr>),
      (str ''800-190'', \<lparr>date = str ''2017-09-01'', title = str ''Application Container Security Guide''\<rparr>)]"

definition invalid_pubs :: "pystr list" where
  "invalid_pubs = [str ''800-204C'', str ''800-210'']"

definition init :: validator where
  "init = \<lparr>errors = [], warnings = [], passed_checks = []\<rparr>"

text \<open>The glyphs U+2713, U+2717 and U+26A0 that start the messages.\<close>

definition tick :: pystr where
  "tick = [0x2713]"

definition cross :: pystr where
  "cross = [0x2717]"

definition warn :: pystr where
  "warn = [0x26A0]"

definition add_error :: "pystr \<Rightarrow> validator \<Rightarrow> validator" where
  "add_error msg v = v\<lparr>errors := errors v @ [msg]\<rparr>"

definition add_warning :: "pystr \<Rightarrow> validator \<Rightarrow> validator" where
  "add_warning msg v = v\<lparr>warnings := warnings v @ [msg]\<rparr>"

definition add_passed :: "pystr \<Rightarrow> validator \<Rightarrow> validator" where
  "add_passed msg v = v\<lparr>passed_checks := passed_checks v @ [msg]\<rparr>"

text \<open>A \<^verbatim>\<open>for\<close> loop whose body may raise: the first exception ends it.\<close>

fun for_each :: "('a \<Rightarrow> 's \<Rightarrow> pyerror + 's) \<Rightarrow> 'a list \<Rightarrow> 's \<Rightarrow> pyerror + 's" where
  "for_each body [] v = Inr v"
| "for_each body (x # xs) v =
     (case body x v of Inl e \<Rightarrow> Inl e | Inr v' \<Rightarrow> for_each body xs v')"

subsection \<open>The six rule checks\<close>

definition required_sections :: "pystr list" where
  "required_sections =
     [str ''Executive Summary'',
      str ''Latest Updates Discovered'',
      str ''Impact on Software Development Organizations'',
      str ''Key Actions and Checklist'',
      str ''References and Citations'',
      str ''Quick Reference Table'']"

definition section_found :: "pystr \<Rightarrow> pystr" where
  "section_found section = tick @ str '' Section found: '' @ section"

definition section_missing :: "pystr \<Rightarrow> pystr" where
  "section_missing section = cross @ str '' Missing required section: '' @ section"

definition check_section :: "pystr \<Rightarrow> pystr \<Rightarrow> validator \<Rightarrow> validator" where
  "check_section content section v =
     (if py_in section content then add_passed (section_found section) v
      else add_error (section_missing section) v)"

definition check_required_sections :: "pystr \<Rightarrow> validator \<Rightarrow> validator" where
  "check_required_sections content v =
     foldl (\<lambda>v section. check_section content section v) v required_sections"

definition date_re :: pystr where
  "date_re = bsl # str ''d{4}-'' @ bsl # str ''d{2}-'' @ bsl # str ''d{2}''"

definition pub_patterns :: "pystr \<Rightarrow> pyerror + pystr list" where
  "pub_patterns pub_id =
     (case index (split_on (ch CHR ''-'') pub_id) 1 of
        Inl e \<Rightarrow> Inl e
      | Inr part \<Rightarrow> Inr [str ''800-'' @ part, str ''SP '' @ replace (ch CHR ''-'') (ch CHR '' '') pub_id])"

definition get_context :: "unicode \<Rightarrow> pystr \<Rightarrow> pystr \<Rightarrow> nat \<Rightarrow> pyerror + pystr" where
  "get_context U content pattern chars =
     (case re_search U pattern content True of
        Inl e \<Rightarrow> Inl e
      | Inr None \<Rightarrow> Inr []
      | Inr (Some (st, en)) \<Rightarrow>
          Inr (slice content (st - chars) (min (length content) (en + chars))))"

definition date_correct :: "pystr \<Rightarrow> pystr \<Rightarrow> pystr" where
  "date_correct pub_id correct_date =
     tick @ str '' Correct date for '' @ pub_id @ str '': '' @ correct_date"

definition date_suspect :: "pystr \<Rightarrow> pystr \<Rightarrow> pystr \<Rightarrow> pystr" where
  "date_suspect pub_id correct_date found =
     warn @ str '' Possible incorrect date for '' @ pub_id @ str ''. ''
       @ str ''Expected: '' @ correct_date @ str '', Found: '' @ found"

text \<open>The body of the inner loop, for one pattern of one publication.\<close>

definition check_pattern ::
  "unicode \<Rightarrow> pystr \<Rightarrow> pystr \<Rightarrow> pub_info \<Rightarrow> pystr \<Rightarrow> validator \<Rightarrow> pyerror + validator" where
  "check_pattern U content pub_id info pattern v =
     (case re_search U pattern content True of
        Inl e \<Rightarrow> Inl e
      | Inr None \<Rightarrow> Inr v
      | Inr (Some m) \<Rightarrow>
          (let correct_date = date info in
           case get_context U content pattern 200 of
             Inl e \<Rightarrow> Inl e
           | Inr pub_context \<Rightarrow>
               (case re_findall U date_re pub_context of
                  Inl e \<Rightarrow> Inl e
                | Inr dates_found \<Rightarrow>
                    if correct_date \<in> set dates_found then
                      Inr (add_passed (date_correct pub_id correct_date) v)
                    else if dates_found \<noteq> [] then
                      (case index dates_found 0 of
                         Inl e \<Rightarrow> Inl e
                       | Inr found \<Rightarrow>
                           Inr (add_warning (date_suspect pub_id correct_date found) v))
                    else Inr v)))"

text \<open>The body of the outer loop, for one entry of the table.\<close>

definition check_pub :: "unicode \<Rightarrow> pystr \<Rightarrow> pystr \<times> pub_info \<Rightarrow> validator \<Rightarrow> pyerror + validator" where
  "check_pub U content entry v =
     (case entry of (pub_id, info) \<Rightarrow>
        (case pub_patterns pub_id of
           Inl e \<Rightarrow> Inl e
         | Inr patterns \<Rightarrow> for_each (check_pattern U content pub_id info) patterns v))"

definition check_publication_dates :: "unicode \<Rightarrow> pystr \<Rightarrow> validator \<Rightarrow> pyerror + validator" where
  "check_publication_dates U content v = for_each (check_pub U content) verified_pubs v"

definition invalid_referenced :: "pystr \<Rightarrow> pystr" where
  "invalid_referenced invalid_pub = cross @ str '' Invalid publication referenced: '' @ invalid_pub"

definition invalid_absent :: "pystr \<Rightarrow> pystr" where
  "invalid_absent invalid_pub = tick @ str '' No reference to invalid publication: '' @ invalid_pub"

definition check_invalid_publications :: "pystr \<Rightarrow> validator \<Rightarrow> validator" where
  "check_invalid_publications content v =
     foldl (\<lambda>v invalid_pub.
              if py_in invalid_pub content then add_error (invalid_referenced invalid_pub) v
              else add_passed (invalid_absent invalid_pub) v)
       v invalid_pubs"

definition url_re :: pystr where
  "url_re = str ''https://csrc'' @ bsl # str ''.nist'' @ bsl # str ''.gov[^'' @ bsl # str ''s'' @ bsl # str '')]+''"

definition correct_pattern :: pystr where
  "correct_pattern =
     str ''https://csrc'' @ bsl # str ''.nist'' @ bsl # str ''.gov/pubs/sp/'' @ bsl # str ''d+/[^/'' @ bsl # str ''s]+/final''"

definition url_correct :: "pystr \<Rightarrow> pystr" where
  "url_correct url = tick @ str '' Correct URL format: '' @ url"

definition url_suspect :: "pystr \<Rightarrow> pystr" where
  "url_suspect url = warn @ str '' Check URL format: '' @ url"

definition check_url :: "unicode \<Rightarrow> pystr \<Rightarrow> validator \<Rightarrow> pyerror + validator" where
  "check_url U url v =
     (case re_match U correct_pattern url of
        Inl e \<Rightarrow> Inl e
      | Inr ok \<Rightarrow> Inr (if ok then add_passed (url_correct url) v
                     else add_warning (url_suspect url) v))"

definition check_urls :: "unicode \<Rightarrow> pystr \<Rightarrow> validator \<Rightarrow> pyerror + validator" where
  "check_urls U content v =
     (case re_findall U url_re content of
        Inl e \<Rightarrow> Inl e
      | Inr urls \<Rightarrow> for_each (check_url U) urls v)"

definition table_re :: pystr where
  "table_re = bsl # str ''|.*'' @ bsl # str ''|.*'' @ bsl # str ''|''"

definition tables_multiple :: "nat \<Rightarrow> pystr" where
  "tables_multiple n =
     warn @ str '' Multiple tables detected ('' @ str_nat n @ str '' rows). '' @ str ''Verify no duplicates.''"

definition tables_single :: pystr where
  "tables_single = tick @ str '' Single reference table (no duplicates)''"

definition check_duplicate_tables :: "unicode \<Rightarrow> pystr \<Rightarrow> validator \<Rightarrow> pyerror + validator" where
  "check_duplicate_tables U content v =
     (case re_findall U table_re content of
        Inl e \<Rightarrow> Inl e
      | Inr table_headers \<Rightarrow>
          Inr (if 5 < length table_headers then add_warning (tables_multiple (length table_headers)) v
               else add_passed tables_single v))"

definition key_pubs :: "pystr list" where
  "key_pubs = [str ''800-218A'', str ''800-218'', str ''800-171'', str ''800-204D'']"

definition check_publication_coverage :: "pystr \<Rightarrow> validator \<Rightarrow> validator" where
  "check_publication_coverage content v =
     (let missing = filter (\<lambda>pub. \<not> py_in pub content) key_pubs in
      if missing \<noteq> [] then
        add_warning (warn @ str '' Key publications not mentioned: '' @ join (str '', '') missing) v
      else add_passed (tick @ str '' All key publications referenced'') v)"

subsection \<open>The report and the entry point\<close>

datatype pyval = PStr pystr | PInt int

type_synonym pydict = "pystr \<rightharpoonup> pyval"

text \<open>
  The console: \<open>console n\<close> holds iff the \<open>n\<close>-th \<^verbatim>\<open>print\<close> call of an invocation, counted
  from 0, returns normally. \<open>prints console n k\<close> makes \<open>k\<close> calls from number \<open>n\<close> on:
  \<open>Inr\<close> the number of the next call when all return, \<open>Inl\<close> the number of the call that
  raised.
\<close>

type_synonym console = "nat \<Rightarrow> bool"

fun prints :: "console \<Rightarrow> nat \<Rightarrow> nat \<Rightarrow> nat + nat" where
  "prints console n 0 = Inr n"
| "prints console n (Suc k) = (if console n then prints console (Suc n) k else Inl n)"

text \<open>
  \<^verbatim>\<open>_generate_report\<close> prints and then returns a dictionary. \<open>report_prints\<close> counts its
  \<^verbatim>\<open>print\<close> calls: three for the title, the block of passed checks (a heading, at most ten
  messages, a line for the rest, a blank line), the blocks of warnings and of errors (a
  heading, every message, a blank line), three for the summary and one for the verdict.
  The pass rate is computed under a guard against division by zero. \<open>generate_report\<close> is
  the dictionary of the three return statements.
\<close>

definition report_prints :: "validator \<Rightarrow> nat" where
  "report_prints v =
     3
     + (if passed_checks v \<noteq> [] then
          1 + length (take 10 (passed_checks v))
            + (if 10 < length (passed_checks v) then 1 else 0) + 1
        else 0)
     + (if warnings v \<noteq> [] then 1 + length (warnings v) + 1 else 0)
     + (if errors v \<noteq> [] then 1 + length (errors v) + 1 else 0)
     + 3
     + 1"

definition generate_report :: "validator \<Rightarrow> pydict" where
  "generate_report v =
     (if errors v \<noteq> [] then
        [str ''status'' \<mapsto> PStr (str ''failed''),
         str ''errors'' \<mapsto> PInt (int (length (errors v)))]
      else if warnings v \<noteq> [] then
        [str ''status'' \<mapsto> PStr (str ''passed_with_warnings''),
         str ''warnings'' \<mapsto> PInt (int (length (warnings v)))]
      else [str ''status'' \<mapsto> PStr (str ''passed'')])"

text \<open>The six calls of \<^verbatim>\<open>validate_file\<close>, in its order.\<close>

definition run_checks :: "unicode \<Rightarrow> pystr \<Rightarrow> validator \<Rightarrow> pyerror + validator" where
  "run_checks U content v =
     (let v1 = check_required_sections content v in
      case check_publication_dates U content v1 of
        Inl e \<Rightarrow> Inl e
      | Inr v2 \<Rightarrow>
          (let v3 = check_invalid_publications content v2 in
           case check_urls U content v3 of
             Inl e \<Rightarrow> Inl e
           | Inr v4 \<Rightarrow>
               (case check_duplicate_tables U content v4 of
                  Inl e \<Rightarrow> Inl e
                | Inr v5 \<Rightarrow> Inr (check_publication_coverage content v5))))"

text \<open>
  What opening and reading the file does: it raises \<^verbatim>\<open>FileNotFoundError\<close>, raises some
  other \<^verbatim>\<open>Exception\<close>, or yields the text. A call raises \<^verbatim>\<open>SystemExit\<close> with a code,
  lets another exception escape, or returns.
\<close>

datatype read_result = FileNotFound | ReadFault | Content pystr

datatype 'a call = SystemExit nat | Raised pyerror | Returns 'a

text \<open>
  An \<^verbatim>\<open>except\<close> clause of \<^verbatim>\<open>validate_file\<close>: it prints a message, as call number \<open>n\<close>,
  and calls \<^verbatim>\<open>sys.exit(1)\<close>. An exception of that \<^verbatim>\<open>print\<close> escapes the function.
\<close>

definition handler :: "console \<Rightarrow> nat \<Rightarrow> 'a call" where
  "handler console n = (if console n then SystemExit 1 else Raised OutputError)"

text \<open>
  \<^verbatim>\<open>validate_file\<close>. Inside its \<^verbatim>\<open>try\<close>: the file is read, three lines are printed, the
  checks run, and the report is printed and returned. \<^verbatim>\<open>except Exception\<close> catches what
  the reading, the checks and every \<^verbatim>\<open>print\<close> raise.
\<close>

definition validate_file ::
  "unicode \<Rightarrow> console \<Rightarrow> read_result \<Rightarrow> validator \<Rightarrow> (pydict \<times> validator) call" where
  "validate_file U console r v =
     (case r of
        FileNotFound \<Rightarrow> handler console 0
      | ReadFault \<Rightarrow> handler console 0
      | Content content \<Rightarrow>
          (case prints console 0 3 of
             Inl j \<Rightarrow> handler console (Suc j)
           | Inr n \<Rightarrow>
               (case run_checks U content v of
                  Inl e \<Rightarrow> handler console n
                | Inr v' \<Rightarrow>
                    (case prints console n (report_prints v') of
                       Inl j \<Rightarrow> handler console (Suc j)
                     | Inr n' \<Rightarrow> Returns (generate_report v', v')))))"

text \<open>
  \<^verbatim>\<open>main\<close>: the exit code of the process, from the argument vector and the file system.
  Without a path it prints three lines of usage and exits with 1. An exception that
  escapes, of a \<^verbatim>\<open>print\<close> or a \<^verbatim>\<open>KeyError\<close>, ends the interpreter with code 1.
\<close>

definition main :: "unicode \<Rightarrow> console \<Rightarrow> pystr list \<Rightarrow> (pystr \<Rightarrow> read_result) \<Rightarrow> nat" where
  "main U console argv fs =
     (if length argv < 2 then
        (case prints console 0 3 of Inl j \<Rightarrow> 1 | Inr n \<Rightarrow> 1)
      else
        (case validate_file U console (fs (argv ! 1)) init of
           SystemExit code \<Rightarrow> code
         | Raised e \<Rightarrow> 1
         | Returns (result, v) \<Rightarrow>
             (case result (str ''status'') of
                None \<Rightarrow> 1
              | Some status \<Rightarrow> if status = PStr (str ''failed'') then 1 else 0)))"

subsection \<open>Findings are only ever appended\<close>

text \<open>
  Every check leaves the findings it was given in place and adds its own behind them;
  what it adds depends on the report text alone. \<open>extend v w\<close> is \<open>v\<close> with the findings
  of \<open>w\<close> appended bucket by bucket, and \<open>appends f\<close> says that \<open>f\<close> returns normally
  and extends its argument by a fixed \<open>w\<close>.
\<close>

lemma str_eq_iff [simp]: "str a = str b \<longleftrightarrow> a = b"
  by (simp add: str_def inj_map_eq_map inj_on_def)

declare parse.simps [simp del]
declare str_nat.simps [simp del]

definition extend :: "validator \<Rightarrow> validator \<Rightarrow> validator" where
  "extend v w =
     \<lparr>errors = errors v @ errors w,
      warnings = warnings v @ warnings w,
      passed_checks = passed_checks v @ passed_checks w\<rparr>"

definition appends :: "(validator \<Rightarrow> pyerror + validator) \<Rightarrow> bool" where
  "appends f = (\<exists>w. \<forall>v. f v = Inr (extend v w))"

lemma extend_init [simp]: "extend v init = v"
  by (simp add: extend_def init_def)

lemma init_extend [simp]: "extend init w = w"
  by (simp add: extend_def init_def)

lemma extend_assoc: "extend (extend a b) c = extend a (extend b c)"
  by (simp add: extend_def)

lemma add_error_extend: "add_error m v = extend v (add_error m init)"
  by (simp add: add_error_def extend_def init_def)

lemma add_warning_extend: "add_warning m v = extend v (add_warning m init)"
  by (simp add: add_warning_def extend_def init_def)

lemma add_passed_extend: "add_passed m v = extend v (add_passed m init)"
  by (simp add: add_passed_def extend_def init_def)

lemma appends_skip: "appends (\<lambda>v. Inr v)"
  unfolding appends_def by (rule exI [of _ init]) simp

lemma appends_add_error: "appends (\<lambda>v. Inr (add_error m v))"
  unfolding appends_def using add_error_extend by blast

lemma appends_add_warning: "appends (\<lambda>v. Inr (add_warning m v))"
  unfolding appends_def using add_warning_extend by blast

lemma appends_add_passed: "appends (\<lambda>v. Inr (add_passed m v))"
  unfolding appends_def using add_passed_extend by blast

lemma appends_seq:
  assumes "appends f" and "appends g"
  shows "appends (\<lambda>v. case f v of Inl e \<Rightarrow> Inl e | Inr v' \<Rightarrow> g v')"
proof -
  from assms obtain a b where a: "\<And>v. f v = Inr (extend v a)" and b: "\<And>v. g v = Inr (extend v b)"
    unfolding appends_def by blast
  have "\<forall>v. (case f v of Inl e \<Rightarrow> Inl e | Inr v' \<Rightarrow> g v') = Inr (extend v (extend a b))"
    by (simp add: a b extend_assoc)
  then show ?thesis unfolding appends_def by blast
qed

lemma appends_pure_seq:
  assumes "appends (\<lambda>v. Inr (f v))" and "appends g"
  shows "appends (\<lambda>v. g (f v))"
  using appends_seq [OF assms] by simp

lemma appends_for_each:
  assumes "\<And>x. x \<in> set xs \<Longrightarrow> appends (body x)"
  shows "appends (for_each body xs)"
  using assms
proof (induction xs)
  case Nil
  have "for_each body [] = (\<lambda>v. Inr v)" by (rule ext) simp
  then show ?case by (simp add: appends_skip)
next
  case (Cons x xs)
  have "for_each body (x # xs) = (\<lambda>v. case body x v of Inl e \<Rightarrow> Inl e | Inr v' \<Rightarrow> for_each body xs v')"
    by (rule ext) simp
  moreover have "appends (body x)" using Cons.prems by simp
  moreover have "appends (for_each body xs)" using Cons by simp
  ultimately show ?case by (simp add: appends_seq)
qed

lemma appends_foldl:
  assumes "\<And>x. x \<in> set xs \<Longrightarrow> appends (\<lambda>v. Inr (step v x))"
  shows "appends (\<lambda>v. Inr (foldl step v xs))"
  using assms
proof (induction xs rule: rev_induct)
  case Nil
  then show ?case by (simp add: appends_skip)
next
  case (snoc x xs)
  have "appends (\<lambda>v. Inr (foldl step v xs))" using snoc by simp
  moreover have "appends (\<lambda>v. Inr (step v x))" using snoc.prems by simp
  ultimately have "appends (\<lambda>v. Inr (step (foldl step v xs) x))"
    by (rule appends_pure_seq)
  then show ?case by simp
qed

lemma compile_date_re:
  "compile date_re =
     Inr [(Digit, 4, Some 4), (Lit (ch CHR ''-''), 1, Some 1), (Digit, 2, Some 2),
          (Lit (ch CHR ''-''), 1, Some 1), (Digit, 2, Some 2)]"
  by code_simp

lemma compile_table_re:
  "compile table_re =
     Inr [(Lit (ch CHR ''|''), 1, Some 1), (AnyChar, 0, None), (Lit (ch CHR ''|''), 1, Some 1),
          (AnyChar, 0, None), (Lit (ch CHR ''|''), 1, Some 1)]"
  by code_simp

lemma compile_url_re:
  "compile url_re =
     Inr (map (\<lambda>c. (Lit c, 1, Some 1)) (str ''https://csrc.nist.gov'')
          @ [(NegSet [SSpace, SChr (ch CHR '')'')], 1, None)])"
  by code_simp

lemma compile_correct_pattern:
  "compile correct_pattern =
     Inr (map (\<lambda>c. (Lit c, 1, Some 1)) (str ''https://csrc.nist.gov/pubs/sp/'')
          @ [(Digit, 1, None), (Lit (ch CHR ''/''), 1, Some 1),
             (NegSet [SChr (ch CHR ''/''), SSpace], 1, None)]
          @ map (\<lambda>c. (Lit c, 1, Some 1)) (str ''/final''))"
  by code_simp

lemma pub_patterns_compile:
  "list_all (\<lambda>(pub_id, info).
      case pub_patterns pub_id of
        Inl e \<Rightarrow> False
      | Inr ps \<Rightarrow> list_all (\<lambda>p. case compile p of Inl e \<Rightarrow> False | Inr its \<Rightarrow> True) ps)
     verified_pubs"
  by code_simp

lemma appends_check_pattern:
  assumes "compile pattern = Inr its"
  shows "appends (check_pattern U content pub_id info pattern)"
proof -
  let ?f = "check_pattern U content pub_id info pattern"
  have "?f = (\<lambda>v. Inr v) \<or> (\<exists>m. ?f = (\<lambda>v. Inr (add_passed m v))) \<or> (\<exists>m. ?f = (\<lambda>v. Inr (add_warning m v)))"
  proof (cases "search_items U True its content")
    case None
    then have "?f = (\<lambda>v. Inr v)"
      by (intro ext) (simp add: check_pattern_def re_search_def assms)
    then show ?thesis by simp
  next
    case (Some m)
    obtain st en where m: "m = (st, en)" by (cases m)
    let ?ds = "findall_items U False [(Digit, 4, Some 4), (Lit (ch CHR ''-''), 1, Some 1), (Digit, 2, Some 2),
          (Lit (ch CHR ''-''), 1, Some 1), (Digit, 2, Some 2)] 0 (slice content (st - 200) (min (length content) (en + 200)))"
    show ?thesis
    proof (cases ?ds)
      case Nil
      then have "?f = (\<lambda>v. Inr v)"
        using Some m
        by (intro ext) (simp add: check_pattern_def re_search_def assms get_context_def re_findall_def compile_date_re)
      then show ?thesis by simp
    next
      case (Cons d ds)
      then have "?f = (\<lambda>v. Inr (if date info \<in> set ?ds then add_passed (date_correct pub_id (date info)) v else add_warning (date_suspect pub_id (date info) d) v))"
        using Some m
        by (intro ext) (simp add: check_pattern_def re_search_def assms get_context_def re_findall_def compile_date_re)
      then show ?thesis by (cases "date info \<in> set ?ds") auto
    qed
  qed
  then show ?thesis
    using appends_skip appends_add_passed appends_add_warning by auto
qed

lemma appends_check_pub:
  assumes "entry \<in> set verified_pubs"
  shows "appends (check_pub U content entry)"
proof -
  obtain pub_id info where entry: "entry = (pub_id, info)" by (cases entry)
  from pub_patterns_compile assms entry
  have ok: "case pub_patterns pub_id of
              Inl e \<Rightarrow> False
            | Inr ps \<Rightarrow> list_all (\<lambda>p. case compile p of Inl e \<Rightarrow> False | Inr its \<Rightarrow> True) ps"
    by (auto simp: list_all_iff)
  then obtain ps where ps: "pub_patterns pub_id = Inr ps"
    and all: "list_all (\<lambda>p. case compile p of Inl e \<Rightarrow> False | Inr its \<Rightarrow> True) ps"
    by (cases "pub_patterns pub_id") auto
  have "appends (check_pattern U content pub_id info p)" if "p \<in> set ps" for p
  proof -
    from all that obtain its where "compile p = Inr its"
      by (cases "compile p") (auto simp: list_all_iff)
    then show ?thesis by (rule appends_check_pattern)
  qed
  then have "appends (for_each (check_pattern U content pub_id info) ps)"
    by (rule appends_for_each)
  moreover have "check_pub U content entry = for_each (check_pattern U content pub_id info) ps"
    by (rule ext) (simp add: check_pub_def entry ps)
  ultimately show ?thesis by simp
qed

lemma appends_check_publication_dates: "appends (check_publication_dates U content)"
proof -
  have "check_publication_dates U content = for_each (check_pub U content) verified_pubs"
    by (rule ext) (simp add: check_publication_dates_def)
  then show ?thesis by (simp add: appends_for_each appends_check_pub)
qed

lemma appends_if:
  assumes "appends (\<lambda>v. Inr (f v))" and "appends (\<lambda>v. Inr (g v))"
  shows "appends (\<lambda>v. Inr (if c then f v else g v))"
  using assms by (cases c) simp_all

lemma appends_pureD: "appends (\<lambda>v. Inr (f v)) \<Longrightarrow> \<exists>w. \<forall>v. f v = extend v w"
  unfolding appends_def by simp

lemma appends_check_required_sections: "appends (\<lambda>v. Inr (check_required_sections content v))"
  unfolding check_required_sections_def check_section_def
  by (rule appends_foldl) (intro appends_if appends_add_passed appends_add_error)

lemma appends_check_invalid_publications:
  "appends (\<lambda>v. Inr (check_invalid_publications content v))"
  unfolding check_invalid_publications_def
  by (rule appends_foldl) (intro appends_if appends_add_passed appends_add_error)

lemma appends_check_url: "appends (check_url U url)"
proof -
  have "check_url U url =
      (\<lambda>v. Inr (if match_here U False (map (\<lambda>c. (Lit c, 1, Some 1)) (str ''https://csrc.nist.gov/pubs/sp/'')
          @ [(Digit, 1, None), (Lit (ch CHR ''/''), 1, Some 1),
             (NegSet [SChr (ch CHR ''/''), SSpace], 1, None)]
          @ map (\<lambda>c. (Lit c, 1, Some 1)) (str ''/final'')) url \<noteq> None
                 then add_passed (url_correct url) v else add_warning (url_suspect url) v))"
    by (rule ext) (simp only: check_url_def re_match_def compile_correct_pattern sum.case)
  then show ?thesis
    by (simp only: appends_if appends_add_passed appends_add_warning)
qed

lemma appends_check_urls: "appends (check_urls U content)"
proof -
  have "check_urls U content =
      for_each (check_url U) (findall_items U False (map (\<lambda>c. (Lit c, 1, Some 1)) (str ''https://csrc.nist.gov'')
          @ [(NegSet [SSpace, SChr (ch CHR '')'')], 1, None)]) 0 content)"
    by (rule ext) (simp only: check_urls_def re_findall_def compile_url_re sum.case)
  then show ?thesis by (simp only: appends_for_each appends_check_url)
qed

lemma appends_check_duplicate_tables: "appends (check_duplicate_tables U content)"
proof -
  let ?n = "length (findall_items U False [(Lit (ch CHR ''|''), 1, Some 1), (AnyChar, 0, None),
      (Lit (ch CHR ''|''), 1, Some 1), (AnyChar, 0, None), (Lit (ch CHR ''|''), 1, Some 1)] 0 content)"
  have "check_duplicate_tables U content =
      (\<lambda>v. Inr (if 5 < ?n then add_warning (tables_multiple ?n) v else add_passed tables_single v))"
    by (rule ext) (simp only: check_duplicate_tables_def re_findall_def compile_table_re sum.case)
  then show ?thesis
    by (simp only: appends_if appends_add_passed appends_add_warning)
qed

lemma appends_check_publication_coverage:
  "appends (\<lambda>v. Inr (check_publication_coverage content v))"
  unfolding check_publication_coverage_def Let_def
  by (intro appends_if appends_add_passed appends_add_warning)

lemma appends_run_checks: "appends (run_checks U content)"
proof -
  obtain w1 where w1: "\<And>v. check_required_sections content v = extend v w1"
    using appends_pureD [OF appends_check_required_sections] by blast
  obtain w2 where w2: "\<And>v. check_publication_dates U content v = Inr (extend v w2)"
    using appends_check_publication_dates unfolding appends_def by blast
  obtain w3 where w3: "\<And>v. check_invalid_publications content v = extend v w3"
    using appends_pureD [OF appends_check_invalid_publications] by blast
  obtain w4 where w4: "\<And>v. check_urls U content v = Inr (extend v w4)"
    using appends_check_urls unfolding appends_def by blast
  obtain w5 where w5: "\<And>v. check_duplicate_tables U content v = Inr (extend v w5)"
    using appends_check_duplicate_tables unfolding appends_def by blast
  obtain w6 where w6: "\<And>v. check_publication_coverage content v = extend v w6"
    using appends_pureD [OF appends_check_publication_coverage] by blast
  have "\<forall>v. run_checks U content v =
      Inr (extend v (extend w1 (extend w2 (extend w3 (extend w4 (extend w5 w6))))))"
    by (simp only: run_checks_def Let_def w1 w2 w3 w4 w5 w6 sum.case extend_assoc) simp
  then show ?thesis unfolding appends_def by blast
qed

section \<open>The claims\<close>

lemma run_checks_returns: "\<exists>w. \<forall>v. run_checks U content v = Inr (extend v w)"
  using appends_run_checks unfolding appends_def .

lemma prints_all:
  "prints console n k = Inr m \<longleftrightarrow> m = n + k \<and> (\<forall>i < k. console (n + i))"
proof (induction k arbitrary: n)
  case 0
  then show ?case by auto
next
  case (Suc k)
  show ?case
  proof (cases "console n")
    case True
    have "(\<forall>i < Suc k. console (n + i)) \<longleftrightarrow> (\<forall>i < k. console (Suc n + i))"
      using True by (auto simp: less_Suc_eq_0_disj)
    then show ?thesis using True Suc [of "Suc n"] by simp
  next
    case False
    then have "\<not> (\<forall>i < Suc k. console (n + i))" by (metis add.right_neutral zero_less_Suc)
    then show ?thesis using False by simp
  qed
qed

lemma prints_ok: "(\<And>i. console i) \<Longrightarrow> prints console n k = Inr (n + k)"
  by (simp add: prints_all)

text \<open>
  A run over a readable file returns the report of the extended buckets, or leaves through
  an \<^verbatim>\<open>except\<close> clause.
\<close>

lemma validate_file_cases:
  assumes "\<And>v. run_checks U content v = Inr (extend v w)"
  shows "validate_file U console (Content content) v = Returns (generate_report (extend v w), extend v w)
       \<or> validate_file U console (Content content) v = SystemExit 1
       \<or> validate_file U console (Content content) v = Raised OutputError"
  by (simp add: validate_file_def assms handler_def split: sum.splits)

lemma validate_file_ok:
  assumes "\<And>v. run_checks U content v = Inr (extend v w)" and "\<And>i. console i"
  shows "validate_file U console (Content content) v = Returns (generate_report (extend v w), extend v w)"
  by (simp add: validate_file_def assms prints_ok)

subsection \<open>The verdict\<close>

text \<open>
  C1. Whatever the buckets hold, the status of the report is \<open>failed\<close> iff the errors
  bucket is non-empty, \<open>passed_with_warnings\<close> iff the errors bucket is empty and the
  warnings bucket is not, and \<open>passed\<close> iff both are empty. Every validation run that
  reads a report and meets no fault of the console returns one result, and every result a
  run returns is the report of the buckets it ends with.
\<close>

theorem verdict_from_buckets:
  "(generate_report b (str ''status'') = Some (PStr (str ''failed'')) \<longleftrightarrow> errors b \<noteq> [])
   \<and> (generate_report b (str ''status'') = Some (PStr (str ''passed_with_warnings''))
        \<longleftrightarrow> errors b = [] \<and> warnings b \<noteq> [])
   \<and> (generate_report b (str ''status'') = Some (PStr (str ''passed''))
        \<longleftrightarrow> errors b = [] \<and> warnings b = [])
   \<and> (\<exists>v'. validate_file U (\<lambda>n. True) (Content content) v = Returns (generate_report v', v'))
   \<and> (\<forall>console result v'.
         validate_file U console (Content content) v = Returns (result, v')
         \<longrightarrow> result = generate_report v')"
proof -
  obtain w where w: "\<And>v. run_checks U content v = Inr (extend v w)"
    using run_checks_returns by blast
  have a: "validate_file U (\<lambda>n. True) (Content content) v
      = Returns (generate_report (extend v w), extend v w)"
    by (rule validate_file_ok [OF w]) simp
  have b: "result = generate_report v'"
    if "validate_file U console (Content content) v = Returns (result, v')" for console result v'
    using that validate_file_cases [OF w, of console v] by auto
  have c: "(generate_report b (str ''status'') = Some (PStr (str ''failed'')) \<longleftrightarrow> errors b \<noteq> [])
   \<and> (generate_report b (str ''status'') = Some (PStr (str ''passed_with_warnings''))
        \<longleftrightarrow> errors b = [] \<and> warnings b \<noteq> [])
   \<and> (generate_report b (str ''status'') = Some (PStr (str ''passed''))
        \<longleftrightarrow> errors b = [] \<and> warnings b = [])"
    by (simp add: generate_report_def)
  from a have "\<exists>v'. validate_file U (\<lambda>n. True) (Content content) v = Returns (generate_report v', v')"
    by blast
  with b c show ?thesis by blast
qed

theorem verdict_from_buckets_witness:
  "generate_report \<lparr>errors = [str ''e''], warnings = [str ''w''], passed_checks = [str ''p'']\<rparr>
       (str ''status'') = Some (PStr (str ''failed''))
   \<and> generate_report \<lparr>errors = [], warnings = [str ''w''], passed_checks = [str ''p'']\<rparr>
       (str ''status'') = Some (PStr (str ''passed_with_warnings''))
   \<and> generate_report \<lparr>errors = [], warnings = [], passed_checks = [str ''p'']\<rparr>
       (str ''status'') = Some (PStr (str ''passed''))
   \<and> (\<forall>U. \<exists>v'. validate_file U (\<lambda>n. True) (Content []) init = Returns (generate_report v', v'))"
  using verdict_from_buckets
          [of "\<lparr>errors = [str ''e''], warnings = [str ''w''], passed_checks = [str ''p'']\<rparr>" _ "[]" init]
        verdict_from_buckets
          [of "\<lparr>errors = [], warnings = [str ''w''], passed_checks = [str ''p'']\<rparr>" _ "[]" init]
        verdict_from_buckets
          [of "\<lparr>errors = [], warnings = [], passed_checks = [str ''p'']\<rparr>" _ "[]" init]
  by simp

text \<open>
  C7, as stated, fails: the result of a failed run has no \<open>warnings\<close> entry, that of a
  run passed with warnings has no \<open>errors\<close> entry, and that of a passed run has the
  status alone.
\<close>

theorem report_keys_counterexample:
  "generate_report \<lparr>errors = [str ''e''], warnings = [str ''w''], passed_checks = []\<rparr> (str ''warnings'') = None
   \<and> generate_report \<lparr>errors = [], warnings = [str ''w''], passed_checks = []\<rparr> (str ''errors'') = None
   \<and> dom (generate_report \<lparr>errors = [], warnings = [], passed_checks = []\<rparr>) = {str ''status''}"
  by (simp add: generate_report_def)

text \<open>
  C7, amended. The result always holds the status, one of the three strings. It holds the
  number of errors only when the status is \<open>failed\<close>, the number of warnings only when
  the status is \<open>passed_with_warnings\<close>, and no count when the status is \<open>passed\<close>.
\<close>

theorem report_keys:
  "dom (generate_report v) =
     (if errors v \<noteq> [] then {str ''status'', str ''errors''}
      else if warnings v \<noteq> [] then {str ''status'', str ''warnings''}
      else {str ''status''})
   \<and> generate_report v (str ''status'') \<in>
        {Some (PStr (str ''failed'')), Some (PStr (str ''passed_with_warnings'')),
         Some (PStr (str ''passed''))}
   \<and> (errors v \<noteq> [] \<longrightarrow>
        generate_report v (str ''errors'') = Some (PInt (int (length (errors v)))))
   \<and> (errors v = [] \<and> warnings v \<noteq> [] \<longrightarrow>
        generate_report v (str ''warnings'') = Some (PInt (int (length (warnings v)))))"
  by (auto simp: generate_report_def)

theorem report_keys_witness:
  "dom (generate_report \<lparr>errors = [str ''e''], warnings = [str ''w''], passed_checks = []\<rparr>)
     = {str ''status'', str ''errors''}
   \<and> generate_report \<lparr>errors = [str ''e''], warnings = [str ''w''], passed_checks = []\<rparr> (str ''errors'')
     = Some (PInt 1)
   \<and> generate_report \<lparr>errors = [], warnings = [str ''w''], passed_checks = []\<rparr> (str ''warnings'')
     = Some (PInt 1)"
  using report_keys [of "\<lparr>errors = [str ''e''], warnings = [str ''w''], passed_checks = []\<rparr>"]
        report_keys [of "\<lparr>errors = [], warnings = [str ''w''], passed_checks = []\<rparr>"]
  by simp

subsection \<open>Sample reports and the errors bucket\<close>

text \<open>A report with the six required headings and nothing else.\<close>

definition six_headings :: pystr where
  "six_headings = (str ''Executive Summary / Latest Updates Discovered / Impact on Software Development Organizations / Key Actions and Checklist / References and Citations / Quick Reference Table'')"

text \<open>
  Only the section check and the invalid-reference check write to the errors bucket.
\<close>

lemma errors_for_each:
  assumes "\<And>x v v'. x \<in> set xs \<Longrightarrow> body x v = Inr v' \<Longrightarrow> errors v' = errors v"
    and "for_each body xs v = Inr v'"
  shows "errors v' = errors v"
  using assms
proof (induction xs arbitrary: v)
  case Nil
  then show ?case by simp
next
  case (Cons x xs)
  from Cons.prems(2) obtain u where u: "body x v = Inr u" and rest: "for_each body xs u = Inr v'"
    by (cases "body x v") auto
  have "errors u = errors v" using u by (intro Cons.prems(1) [of x]) simp_all
  moreover have "errors v' = errors u"
  proof (rule Cons.IH [OF _ rest])
    fix y a b
    assume "y \<in> set xs" "body y a = Inr b"
    then show "errors b = errors a" using Cons.prems(1) [of y a b] by simp
  qed
  ultimately show ?case by simp
qed

lemma errors_check_pattern:
  "check_pattern U content pub_id info pattern v = Inr v' \<Longrightarrow> errors v' = errors v"
  by (auto simp: check_pattern_def add_passed_def add_warning_def Let_def
           split: sum.splits option.splits if_splits)

lemma errors_check_pub:
  assumes "check_pub U content entry v = Inr v'"
  shows "errors v' = errors v"
proof -
  obtain pub_id info where entry: "entry = (pub_id, info)" by (cases entry)
  from assms entry obtain ps where "for_each (check_pattern U content pub_id info) ps v = Inr v'"
    by (cases "pub_patterns pub_id") (simp_all add: check_pub_def)
  then show ?thesis
    by (rule errors_for_each [rotated]) (rule errors_check_pattern)
qed

lemma errors_check_publication_dates:
  assumes "check_publication_dates U content v = Inr v'"
  shows "errors v' = errors v"
  using assms unfolding check_publication_dates_def
  by (rule errors_for_each [rotated]) (rule errors_check_pub)

lemma errors_check_url: "check_url U url v = Inr v' \<Longrightarrow> errors v' = errors v"
  by (cases "re_match U correct_pattern url")
     (auto simp: check_url_def add_passed_def add_warning_def split: if_splits)

lemma errors_check_urls:
  assumes "check_urls U content v = Inr v'"
  shows "errors v' = errors v"
proof -
  from assms obtain urls where "for_each (check_url U) urls v = Inr v'"
    by (cases "re_findall U url_re content") (simp_all add: check_urls_def)
  then show ?thesis
    by (rule errors_for_each [rotated]) (rule errors_check_url)
qed

lemma errors_check_duplicate_tables:
  "check_duplicate_tables U content v = Inr v' \<Longrightarrow> errors v' = errors v"
  by (cases "re_findall U table_re content")
     (auto simp: check_duplicate_tables_def add_passed_def add_warning_def split: if_splits)

lemma errors_check_publication_coverage:
  "errors (check_publication_coverage content v) = errors v"
  by (simp add: check_publication_coverage_def Let_def add_passed_def add_warning_def)

lemma errors_check_required_sections:
  "errors (check_required_sections content v)
     = errors v @ errors (check_required_sections content init)"
proof -
  obtain w where w: "\<And>v. check_required_sections content v = extend v w"
    using appends_pureD [OF appends_check_required_sections] by blast
  have "check_required_sections content init = w" using w [of init] by simp
  then show ?thesis using w [of v] by (simp add: extend_def)
qed

lemma errors_check_invalid_publications:
  "errors (check_invalid_publications content v)
     = errors v @ errors (check_invalid_publications content init)"
proof -
  obtain w where w: "\<And>v. check_invalid_publications content v = extend v w"
    using appends_pureD [OF appends_check_invalid_publications] by blast
  have "check_invalid_publications content init = w" using w [of init] by simp
  then show ?thesis using w [of v] by (simp add: extend_def)
qed

lemma errors_run_checks:
  assumes "run_checks U content v = Inr v'"
  shows "errors v' = errors v @ errors (check_required_sections content init)
           @ errors (check_invalid_publications content init)"
proof -
  let ?v1 = "check_required_sections content v"
  obtain v2 where d: "check_publication_dates U content ?v1 = Inr v2"
    using appends_check_publication_dates [of U content] unfolding appends_def by metis
  let ?v3 = "check_invalid_publications content v2"
  obtain v4 where u: "check_urls U content ?v3 = Inr v4"
    using appends_check_urls [of U content] unfolding appends_def by metis
  obtain v5 where t: "check_duplicate_tables U content v4 = Inr v5"
    using appends_check_duplicate_tables [of U content] unfolding appends_def by metis
  have "run_checks U content v = Inr (check_publication_coverage content v5)"
    by (simp add: run_checks_def Let_def d u t)
  with assms have c: "v' = check_publication_coverage content v5" by simp
  have "errors v' = errors ?v3"
    using c errors_check_publication_coverage errors_check_duplicate_tables [OF t]
      errors_check_urls [OF u] by simp
  also have "\<dots> = errors v2 @ errors (check_invalid_publications content init)"
    by (rule errors_check_invalid_publications)
  also have "errors v2 = errors ?v1" by (rule errors_check_publication_dates [OF d])
  also have "\<dots> = errors v @ errors (check_required_sections content init)"
    by (rule errors_check_required_sections)
  finally show ?thesis by simp
qed

lemma six_headings_sections: "errors (check_required_sections six_headings init) = []"
  by code_simp

lemma six_headings_invalid: "errors (check_invalid_publications six_headings init) = []"
  by code_simp

lemma empty_sections: "length (errors (check_required_sections [] init)) = 6"
  by code_simp

lemma empty_invalid: "errors (check_invalid_publications [] init) = []"
  by code_simp

text \<open>The six headings and the four key publications: a report that passes.\<close>

definition good_report :: pystr where
  "good_report = six_headings @ str '' / SP 800-218A, SP 800-171, SP 800-204D''"

lemma run_checks_last:
  assumes "run_checks U content v = Inr v'"
  shows "\<exists>v5. v' = check_publication_coverage content v5"
proof -
  let ?v1 = "check_required_sections content v"
  obtain v2 where d: "check_publication_dates U content ?v1 = Inr v2"
    using appends_check_publication_dates [of U content] unfolding appends_def by metis
  let ?v3 = "check_invalid_publications content v2"
  obtain v4 where u: "check_urls U content ?v3 = Inr v4"
    using appends_check_urls [of U content] unfolding appends_def by metis
  obtain v5 where t: "check_duplicate_tables U content v4 = Inr v5"
    using appends_check_duplicate_tables [of U content] unfolding appends_def by metis
  have "run_checks U content v = Inr (check_publication_coverage content v5)"
    by (simp add: run_checks_def Let_def d u t)
  with assms show ?thesis by auto
qed

lemma coverage_warns:
  "filter (\<lambda>pub. \<not> py_in pub content) key_pubs \<noteq> [] \<Longrightarrow>
     warnings (check_publication_coverage content v) \<noteq> []"
  by (simp add: check_publication_coverage_def Let_def add_warning_def)

lemma six_headings_coverage: "filter (\<lambda>pub. \<not> py_in pub six_headings) key_pubs \<noteq> []"
  by code_simp

lemma good_report_run:
  "(case run_checks U good_report init of
      Inl e \<Rightarrow> False
    | Inr v \<Rightarrow> errors v = [] \<and> warnings v = [])"
  by code_simp

lemma handler_cases: "handler console n = SystemExit 1 \<or> handler console n = Raised OutputError"
  by (simp add: handler_def)

lemma validate_file_outcomes:
  "(\<exists>v'. validate_file U console r v = Returns (generate_report v', v'))
   \<or> validate_file U console r v = SystemExit 1
   \<or> validate_file U console r v = Raised OutputError"
proof (cases r)
  case FileNotFound
  then show ?thesis using handler_cases [of console 0] by (auto simp: validate_file_def)
next
  case ReadFault
  then show ?thesis using handler_cases [of console 0] by (auto simp: validate_file_def)
next
  case (Content content)
  obtain w where w: "\<And>v. run_checks U content v = Inr (extend v w)"
    using run_checks_returns by blast
  show ?thesis using validate_file_cases [OF w, of console v] Content by auto
qed

subsection \<open>The exit code\<close>

text \<open>
  C8. Called with a path, the process exits with code 1 when the file is missing or
  reading it faults. Whenever the run returns a result, its status is one of the three
  strings, and the exit code is 1 when it is \<open>failed\<close> and 0 when it is
  \<open>passed_with_warnings\<close> or \<open>passed\<close>. A run that returns no result, because an
  exception was caught or escaped, ends with code 1; on a readable file and a console
  whose \<^verbatim>\<open>print\<close> never raises the run does return its report.
\<close>

theorem main_exit_code:
  assumes "2 \<le> length argv"
  shows "(fs (argv ! 1) = FileNotFound \<longrightarrow> main U console argv fs = 1)
       \<and> (fs (argv ! 1) = ReadFault \<longrightarrow> main U console argv fs = 1)
       \<and> (\<forall>result v. validate_file U console (fs (argv ! 1)) init = Returns (result, v) \<longrightarrow>
              result (str ''status'') \<in> {Some (PStr (str ''failed'')),
                  Some (PStr (str ''passed_with_warnings'')), Some (PStr (str ''passed''))}
            \<and> (result (str ''status'') = Some (PStr (str ''failed''))
                 \<longrightarrow> main U console argv fs = 1)
            \<and> (result (str ''status'') = Some (PStr (str ''passed_with_warnings''))
                 \<longrightarrow> main U console argv fs = 0)
            \<and> (result (str ''status'') = Some (PStr (str ''passed''))
                 \<longrightarrow> main U console argv fs = 0))
       \<and> ((\<forall>result v. validate_file U console (fs (argv ! 1)) init \<noteq> Returns (result, v))
            \<longrightarrow> main U console argv fs = 1)
       \<and> (\<forall>content. fs (argv ! 1) = Content content \<and> (\<forall>n. console n) \<longrightarrow>
            (\<exists>v. validate_file U console (fs (argv ! 1)) init = Returns (generate_report v, v)))"
proof (intro conjI allI impI)
  assume "fs (argv ! 1) = FileNotFound"
  then show "main U console argv fs = 1"
    using assms by (cases "console 0") (simp_all add: main_def validate_file_def handler_def)
next
  assume "fs (argv ! 1) = ReadFault"
  then show "main U console argv fs = 1"
    using assms by (cases "console 0") (simp_all add: main_def validate_file_def handler_def)
next
  fix result v
  assume r: "validate_file U console (fs (argv ! 1)) init = Returns (result, v)"
  then have g: "result = generate_report v"
    using validate_file_outcomes [of U console "fs (argv ! 1)" init] by auto
  show "result (str ''status'') \<in> {Some (PStr (str ''failed'')),
                  Some (PStr (str ''passed_with_warnings'')), Some (PStr (str ''passed''))}"
    by (simp add: g generate_report_def)
  show "main U console argv fs = 1" if "result (str ''status'') = Some (PStr (str ''failed''))"
    using that assms r by (simp add: main_def)
  show "main U console argv fs = 0"
    if "result (str ''status'') = Some (PStr (str ''passed_with_warnings''))"
    using that assms r by (simp add: main_def)
  show "main U console argv fs = 0" if "result (str ''status'') = Some (PStr (str ''passed''))"
    using that assms r by (simp add: main_def)
next
  assume "\<forall>result v. validate_file U console (fs (argv ! 1)) init \<noteq> Returns (result, v)"
  then have "validate_file U console (fs (argv ! 1)) init = SystemExit 1
      \<or> validate_file U console (fs (argv ! 1)) init = Raised OutputError"
    using validate_file_outcomes [of U console "fs (argv ! 1)" init] by auto
  then show "main U console argv fs = 1"
    using assms by (auto simp: main_def)
next
  fix content
  assume a: "fs (argv ! 1) = Content content \<and> (\<forall>n. console n)"
  obtain w where w: "\<And>v. run_checks U content v = Inr (extend v w)"
    using run_checks_returns by blast
  have "validate_file U console (Content content) init
      = Returns (generate_report (extend init w), extend init w)"
    using a by (intro validate_file_ok [OF w]) simp
  then show "\<exists>v. validate_file U console (fs (argv ! 1)) init = Returns (generate_report v, v)"
    using a by auto
qed

theorem main_exit_code_witness:
  "\<forall>U. main U (\<lambda>n. True) [str ''output_validator.py'', str ''summary.md'']
          (\<lambda>path. Content good_report) = 0
     \<and> main U (\<lambda>n. True) [str ''output_validator.py'', str ''summary.md'']
          (\<lambda>path. Content six_headings) = 0
     \<and> main U (\<lambda>n. True) [str ''output_validator.py'', str ''summary.md'']
          (\<lambda>path. Content []) = 1
     \<and> main U (\<lambda>n. True) [str ''output_validator.py'', str ''summary.md'']
          (\<lambda>path. FileNotFound) = 1
     \<and> main U (\<lambda>n. True) [str ''output_validator.py'', str ''summary.md'']
          (\<lambda>path. ReadFault) = 1
     \<and> main U (\<lambda>n. False) [str ''output_validator.py'', str ''summary.md'']
          (\<lambda>path. Content good_report) = 1"
proof
  fix U
  let ?argv = "[str ''output_validator.py'', str ''summary.md'']"
  let ?ok = "\<lambda>n::nat. True"
  have len: "2 \<le> length ?argv" by simp
  note h = main_exit_code [OF len, of _ U]
  obtain vg where vg: "run_checks U good_report init = Inr vg" "errors vg = []" "warnings vg = []"
    using good_report_run [of U] by (cases "run_checks U good_report init") auto
  have rg: "validate_file U ?ok (Content good_report) init = Returns (generate_report vg, vg)"
    by (simp add: validate_file_def vg prints_ok)
  have "generate_report vg (str ''status'') = Some (PStr (str ''passed''))"
    by (simp add: generate_report_def vg)
  with h [of "\<lambda>path. Content good_report" ?ok] rg
  have a: "main U ?ok ?argv (\<lambda>path. Content good_report) = 0" by simp
  obtain vs where vs: "run_checks U six_headings init = Inr vs"
    using run_checks_returns [of U six_headings] by (metis init_extend)
  have es: "errors vs = []"
    using errors_run_checks [OF vs] six_headings_sections six_headings_invalid
    by (simp add: init_def)
  have ws: "warnings vs \<noteq> []"
    using run_checks_last [OF vs] coverage_warns [OF six_headings_coverage] by auto
  have rs: "validate_file U ?ok (Content six_headings) init = Returns (generate_report vs, vs)"
    by (simp add: validate_file_def vs prints_ok)
  have "generate_report vs (str ''status'') = Some (PStr (str ''passed_with_warnings''))"
    by (simp add: generate_report_def es ws)
  with h [of "\<lambda>path. Content six_headings" ?ok] rs
  have b: "main U ?ok ?argv (\<lambda>path. Content six_headings) = 0" by simp
  obtain ve where ve: "run_checks U [] init = Inr ve"
    using run_checks_returns [of U "[]"] by (metis init_extend)
  have ee: "errors ve \<noteq> []"
    using errors_run_checks [OF ve] empty_sections by (auto simp: init_def)
  have re: "validate_file U ?ok (Content []) init = Returns (generate_report ve, ve)"
    by (simp add: validate_file_def ve prints_ok)
  have "generate_report ve (str ''status'') = Some (PStr (str ''failed''))"
    by (simp add: generate_report_def ee)
  with h [of "\<lambda>path. Content []" ?ok] re
  have c: "main U ?ok ?argv (\<lambda>path. Content []) = 1" by simp
  have d: "main U ?ok ?argv (\<lambda>path. FileNotFound) = 1"
    using h [of "\<lambda>path. FileNotFound" ?ok] by simp
  have e: "main U ?ok ?argv (\<lambda>path. ReadFault) = 1"
    using h [of "\<lambda>path. ReadFault" ?ok] by simp
  have "validate_file U (\<lambda>n. False) (Content good_report) init = Raised OutputError"
    by (simp add: validate_file_def handler_def numeral_3_eq_3)
  with h [of "\<lambda>path. Content good_report" "\<lambda>n. False"]
  have f: "main U (\<lambda>n. False) ?argv (\<lambda>path. Content good_report) = 1" by simp
  from a b c d e f
  show "main U (\<lambda>n. True) ?argv (\<lambda>path. Content good_report) = 0
     \<and> main U (\<lambda>n. True) ?argv (\<lambda>path. Content six_headings) = 0
     \<and> main U (\<lambda>n. True) ?argv (\<lambda>path. Content []) = 1
     \<and> main U (\<lambda>n. True) ?argv (\<lambda>path. FileNotFound) = 1
     \<and> main U (\<lambda>n. True) ?argv (\<lambda>path. ReadFault) = 1
     \<and> main U (\<lambda>n. False) ?argv (\<lambda>path. Content good_report) = 1"
    by simp
qed

subsection \<open>State across runs\<close>

text \<open>
  C6, as stated, fails: \<^verbatim>\<open>validate_file\<close> does not reset the buckets. After a run on
  the empty report, a second run on the same validator over the six headings keeps the
  six errors of the first run and reports \<open>failed\<close>, while a run of a new validator over
  the same text has no error and does not fail.
\<close>

theorem fresh_buckets_counterexample:
  "\<forall>U. \<exists>r1 v1 r2 v2 r3 v3.
     validate_file U (\<lambda>n. True) (Content []) init = Returns (r1, v1)
     \<and> validate_file U (\<lambda>n. True) (Content six_headings) v1 = Returns (r2, v2)
     \<and> validate_file U (\<lambda>n. True) (Content six_headings) init = Returns (r3, v3)
     \<and> errors v3 = [] \<and> errors v2 = errors v1 \<and> length (errors v1) = 6
     \<and> r3 (str ''status'') \<noteq> Some (PStr (str ''failed''))
     \<and> r2 (str ''status'') = Some (PStr (str ''failed''))"
proof
  fix U
  obtain v1 where v1: "run_checks U [] init = Inr v1"
    using run_checks_returns [of U "[]"] by (metis init_extend)
  obtain v2 where v2: "run_checks U six_headings v1 = Inr v2"
    using run_checks_returns [of U six_headings] by metis
  obtain v3 where v3: "run_checks U six_headings init = Inr v3"
    using run_checks_returns [of U six_headings] by metis
  have e1: "length (errors v1) = 6"
    using errors_run_checks [OF v1] empty_sections empty_invalid
    by (simp add: init_def)
  have e2: "errors v2 = errors v1"
    using errors_run_checks [OF v2] six_headings_sections six_headings_invalid by simp
  have e3: "errors v3 = []"
    using errors_run_checks [OF v3] six_headings_sections six_headings_invalid
    by (simp add: init_def)
  have "errors v2 \<noteq> []" using e1 e2 by auto
  then show "\<exists>r1 v1 r2 v2 r3 v3.
     validate_file U (\<lambda>n. True) (Content []) init = Returns (r1, v1)
     \<and> validate_file U (\<lambda>n. True) (Content six_headings) v1 = Returns (r2, v2)
     \<and> validate_file U (\<lambda>n. True) (Content six_headings) init = Returns (r3, v3)
     \<and> errors v3 = [] \<and> errors v2 = errors v1 \<and> length (errors v1) = 6
     \<and> r3 (str ''status'') \<noteq> Some (PStr (str ''failed''))
     \<and> r2 (str ''status'') = Some (PStr (str ''failed''))"
    using v1 v2 v3 e1 e2 e3
    by (simp add: validate_file_def generate_report_def prints_ok)
qed

text \<open>
  C6, amended. A new validator starts with empty buckets, and a run on it depends on the
  report text alone. A run on a validator that already holds findings returns, in each
  bucket, those findings followed by the ones a new validator finds in the same text, and
  derives its result from the combined buckets. This holds of every run that returns, and
  a run returns whenever no \<^verbatim>\<open>print\<close> raises.
\<close>

theorem runs_accumulate:
  "\<exists>w. validate_file U (\<lambda>n. True) (Content content) init = Returns (generate_report w, w)
     \<and> (\<forall>v. \<exists>result v'. validate_file U (\<lambda>n. True) (Content content) v = Returns (result, v')
            \<and> result = generate_report v'
            \<and> errors v' = errors v @ errors w
            \<and> warnings v' = warnings v @ warnings w
            \<and> passed_checks v' = passed_checks v @ passed_checks w)
     \<and> (\<forall>console v result v'.
            validate_file U console (Content content) v = Returns (result, v') \<longrightarrow>
              result = generate_report v'
            \<and> errors v' = errors v @ errors w
            \<and> warnings v' = warnings v @ warnings w
            \<and> passed_checks v' = passed_checks v @ passed_checks w)"
proof -
  obtain w where w: "\<And>v. run_checks U content v = Inr (extend v w)"
    using run_checks_returns by blast
  have a: "validate_file U (\<lambda>n. True) (Content content) v
      = Returns (generate_report (extend v w), extend v w)" for v
    by (rule validate_file_ok [OF w]) simp
  have b: "result = generate_report v' \<and> v' = extend v w"
    if "validate_file U console (Content content) v = Returns (result, v')"
    for console v result v'
    using that validate_file_cases [OF w, of console v] by auto
  have "validate_file U (\<lambda>n. True) (Content content) init = Returns (generate_report w, w)"
    using a [of init] by simp
  moreover have "\<exists>result v'. validate_file U (\<lambda>n. True) (Content content) v = Returns (result, v')
            \<and> result = generate_report v'
            \<and> errors v' = errors v @ errors w
            \<and> warnings v' = warnings v @ warnings w
            \<and> passed_checks v' = passed_checks v @ passed_checks w" for v
    using a [of v] by (simp add: extend_def)
  moreover have "result = generate_report v'
            \<and> errors v' = errors v @ errors w
            \<and> warnings v' = warnings v @ warnings w
            \<and> passed_checks v' = passed_checks v @ passed_checks w"
    if "validate_file U console (Content content) v = Returns (result, v')"
    for console v result v'
    using b [OF that] by (simp add: extend_def)
  ultimately show ?thesis by blast
qed

theorem runs_accumulate_witness:
  "\<forall>U. \<exists>w v'. validate_file U (\<lambda>n. True) (Content six_headings) init = Returns (generate_report w, w)
     \<and> validate_file U (\<lambda>n. True) (Content six_headings)
          \<lparr>errors = [str ''old''], warnings = [], passed_checks = []\<rparr>
        = Returns (generate_report v', v')
     \<and> errors w = []
     \<and> errors v' = [str ''old'']"
proof
  fix U
  let ?old = "\<lparr>errors = [str ''old''], warnings = [], passed_checks = []\<rparr>"
  from runs_accumulate [of U six_headings] obtain w
    where f: "validate_file U (\<lambda>n. True) (Content six_headings) init = Returns (generate_report w, w)"
      and g: "\<And>v. \<exists>result v'. validate_file U (\<lambda>n. True) (Content six_headings) v = Returns (result, v')
            \<and> result = generate_report v'
            \<and> errors v' = errors v @ errors w
            \<and> warnings v' = warnings v @ warnings w
            \<and> passed_checks v' = passed_checks v @ passed_checks w"
    by blast
  from f have "run_checks U six_headings init = Inr w"
    by (auto simp: validate_file_def prints_ok handler_def split: sum.splits)
  then have e: "errors w = []"
    using errors_run_checks six_headings_sections six_headings_invalid
    by (simp add: init_def)
  from g [of ?old] obtain v'
    where "validate_file U (\<lambda>n. True) (Content six_headings) ?old = Returns (generate_report v', v')"
      and "errors v' = errors ?old @ errors w"
    by blast
  with f e show "\<exists>w v'. validate_file U (\<lambda>n. True) (Content six_headings) init = Returns (generate_report w, w)
     \<and> validate_file U (\<lambda>n. True) (Content six_headings) ?old = Returns (generate_report v', v')
     \<and> errors w = []
     \<and> errors v' = [str ''old'']"
    by auto
qed

subsection \<open>No check raises\<close>

text \<open>
  C9. For every report text each of the six checks returns normally, whatever findings
  the validator already holds and whatever the interpreter's tables say, and its whole
  effect is to append findings that depend on the text alone; so does their sequence in
  \<^verbatim>\<open>validate_file\<close>.
\<close>

theorem checks_never_raise:
  "(\<exists>w. \<forall>v. check_required_sections content v = extend v w)
   \<and> (\<exists>w. \<forall>v. check_publication_dates U content v = Inr (extend v w))
   \<and> (\<exists>w. \<forall>v. check_invalid_publications content v = extend v w)
   \<and> (\<exists>w. \<forall>v. check_urls U content v = Inr (extend v w))
   \<and> (\<exists>w. \<forall>v. check_duplicate_tables U content v = Inr (extend v w))
   \<and> (\<exists>w. \<forall>v. check_publication_coverage content v = extend v w)
   \<and> (\<exists>w. \<forall>v. run_checks U content v = Inr (extend v w))"
  using appends_pureD [OF appends_check_required_sections]
    appends_check_publication_dates
    appends_pureD [OF appends_check_invalid_publications]
    appends_check_urls appends_check_duplicate_tables
    appends_pureD [OF appends_check_publication_coverage]
    appends_run_checks
  unfolding appends_def by blast

theorem checks_never_raise_witness:
  "\<forall>U. (\<exists>w. \<forall>v. check_required_sections (str ''| a | b |'') v = extend v w)
   \<and> (\<exists>w. \<forall>v. check_publication_dates U (str ''| a | b |'') v = Inr (extend v w))
   \<and> (\<exists>w. \<forall>v. check_invalid_publications (str ''| a | b |'') v = extend v w)
   \<and> (\<exists>w. \<forall>v. check_urls U (str ''| a | b |'') v = Inr (extend v w))
   \<and> (\<exists>w. \<forall>v. check_duplicate_tables U (str ''| a | b |'') v = Inr (extend v w))
   \<and> (\<exists>w. \<forall>v. check_publication_coverage (str ''| a | b |'') v = extend v w)
   \<and> (\<exists>w. \<forall>v. run_checks U (str ''| a | b |'') v = Inr (extend v w))"
  by (rule allI) (rule checks_never_raise)

subsection \<open>Required sections\<close>

lemma starts_with_prefix: "starts_with p s \<longleftrightarrow> prefix p s"
  by (induction p s rule: starts_with.induct) simp_all

lemma py_in_sublist: "py_in sub s \<longleftrightarrow> sublist sub s"
proof (induction s)
  case Nil
  then show ?case by simp
next
  case (Cons c cs)
  then show ?case by (simp add: starts_with_prefix sublist_Cons_right)
qed

lemma sections_foldl:
  "foldl (\<lambda>v section. check_section content section v) v xs =
     extend v \<lparr>errors = map section_missing (filter (\<lambda>h. \<not> sublist h content) xs),
               warnings = [],
               passed_checks = map section_found (filter (\<lambda>h. sublist h content) xs)\<rparr>"
proof (induction xs arbitrary: v)
  case Nil
  then show ?case by (simp add: extend_def)
next
  case (Cons x xs)
  have "foldl (\<lambda>v section. check_section content section v) v (x # xs) =
      extend (check_section content x v)
        \<lparr>errors = map section_missing (filter (\<lambda>h. \<not> sublist h content) xs),
         warnings = [],
         passed_checks = map section_found (filter (\<lambda>h. sublist h content) xs)\<rparr>"
    by (simp only: foldl_Cons Cons)
  then show ?case
    by (simp add: check_section_def py_in_sublist extend_def add_passed_def add_error_def)
qed

lemma count_list_map_filter:
  assumes "distinct xs" and "inj f"
  shows "count_list (map f (filter P xs)) (f h) = (if h \<in> set xs \<and> P h then 1 else 0)"
  using assms(1)
proof (induction xs)
  case Nil
  then show ?case by simp
next
  case (Cons x xs)
  then show ?case using assms(2) by (auto simp: inj_eq)
qed

lemma inj_section_found: "inj section_found"
  by (rule injI) (simp add: section_found_def)

lemma inj_section_missing: "inj section_missing"
  by (rule injI) (simp add: section_missing_def)

lemma distinct_required_sections: "distinct required_sections"
  by (simp add: required_sections_def)

text \<open>
  C4. For every report text the section check appends, in the order of the six required
  headings, one \<open>Section found\<close> message to the passed bucket for each heading that occurs
  in the text as a contiguous, case-sensitive substring, and one
  \<open>Missing required section\<close> message naming the heading to the errors bucket for each
  heading that does not; it leaves the warnings alone. So every heading has exactly one
  finding, of the kind its presence decides.
\<close>

theorem section_presence:
  "passed_checks (check_required_sections content v) =
     passed_checks v @ map section_found (filter (\<lambda>h. sublist h content) required_sections)
   \<and> errors (check_required_sections content v) =
     errors v @ map section_missing (filter (\<lambda>h. \<not> sublist h content) required_sections)
   \<and> warnings (check_required_sections content v) = warnings v
   \<and> (\<forall>h \<in> set required_sections.
        count_list (map section_found (filter (\<lambda>h. sublist h content) required_sections))
          (section_found h) = (if sublist h content then 1 else 0)
      \<and> count_list (map section_missing (filter (\<lambda>h. \<not> sublist h content) required_sections))
          (section_missing h) = (if sublist h content then 0 else 1))"
  by (simp add: check_required_sections_def sections_foldl extend_def
        count_list_map_filter [OF distinct_required_sections inj_section_found]
        count_list_map_filter [OF distinct_required_sections inj_section_missing])

theorem section_presence_witness:
  "passed_checks (check_required_sections (str ''# Executive Summary'') init) =
     [section_found (str ''Executive Summary'')]
   \<and> errors (check_required_sections (str ''# Executive Summary'') init) =
     [section_missing (str ''Latest Updates Discovered''),
      section_missing (str ''Impact on Software Development Organizations''),
      section_missing (str ''Key Actions and Checklist''),
      section_missing (str ''References and Citations''),
      section_missing (str ''Quick Reference Table'')]
   \<and> count_list (map section_found
          (filter (\<lambda>h. sublist h (str ''# Executive Summary'')) required_sections))
        (section_found (str ''Executive Summary'')) = 1
   \<and> count_list (map section_missing
          (filter (\<lambda>h. \<not> sublist h (str ''# Executive Summary'')) required_sections))
        (section_missing (str ''Quick Reference Table'')) = 1"
proof -
  let ?c = "str ''# Executive Summary''"
  have py: "py_in (str ''Executive Summary'') ?c"
      "\<not> py_in (str ''Latest Updates Discovered'') ?c"
      "\<not> py_in (str ''Impact on Software Development Organizations'') ?c"
      "\<not> py_in (str ''Key Actions and Checklist'') ?c"
      "\<not> py_in (str ''References and Citations'') ?c"
      "\<not> py_in (str ''Quick Reference Table'') ?c"
    by code_simp+
  then have yes: "sublist (str ''Executive Summary'') ?c"
    and no: "\<not> sublist (str ''Latest Updates Discovered'') ?c"
      "\<not> sublist (str ''Impact on Software Development Organizations'') ?c"
      "\<not> sublist (str ''Key Actions and Checklist'') ?c"
      "\<not> sublist (str ''References and Citations'') ?c"
      "\<not> sublist (str ''Quick Reference Table'') ?c"
    unfolding py_in_sublist by simp_all
  have m: "(str ''Executive Summary'') \<in> set required_sections"
    "(str ''Quick Reference Table'') \<in> set required_sections"
    by (simp_all add: required_sections_def)
  note h = section_presence [of ?c init]
  have c1: "count_list (map section_found (filter (\<lambda>h. sublist h ?c) required_sections))
        (section_found (str ''Executive Summary'')) = 1"
    using h m(1) yes by auto
  have c2: "count_list (map section_missing (filter (\<lambda>h. \<not> sublist h ?c) required_sections))
        (section_missing (str ''Quick Reference Table'')) = 1"
    using h m(2) no(5) by auto
  have p: "passed_checks (check_required_sections ?c init) = [section_found (str ''Executive Summary'')]"
    using h yes no by (simp add: required_sections_def init_def)
  have e: "errors (check_required_sections ?c init) =
     [section_missing (str ''Latest Updates Discovered''),
      section_missing (str ''Impact on Software Development Organizations''),
      section_missing (str ''Key Actions and Checklist''),
      section_missing (str ''References and Citations''),
      section_missing (str ''Quick Reference Table'')]"
    using h yes no by (simp add: required_sections_def init_def)
  show ?thesis using c1 c2 p e by simp
qed

subsection \<open>Duplicate tables\<close>

text \<open>Six lines of two pipes each.\<close>

definition two_pipe_rows :: pystr where
  "two_pipe_rows = (str ''|a|'') @ [newline] @ (str ''|b|'') @ [newline] @ (str ''|c|'') @ [newline]
     @ (str ''|d|'') @ [newline] @ (str ''|e|'') @ [newline] @ (str ''|f|'')"

text \<open>
  C5, as stated, fails: the pattern \<^verbatim>\<open>\|.*\|.*\|\<close> asks for three pipes on a line.
  Six lines with two pipes each exceed the threshold of the claim, and the check passes.
\<close>

theorem table_rows_counterexample:
  "length (filter (\<lambda>l. 2 \<le> count_list l (ch CHR ''|'')) (split_on newline two_pipe_rows)) = 6
   \<and> (\<forall>U. check_duplicate_tables U two_pipe_rows init = Inr (add_passed tables_single init))"
proof
  show "length (filter (\<lambda>l. 2 \<le> count_list l (ch CHR ''|'')) (split_on newline two_pipe_rows)) = 6"
    by code_simp
  show "\<forall>U. check_duplicate_tables U two_pipe_rows init = Inr (add_passed tables_single init)"
  proof
    fix U
    show "check_duplicate_tables U two_pipe_rows init = Inr (add_passed tables_single init)"
      by code_simp
  qed
qed

abbreviation pipe :: cp where
  "pipe \<equiv> 124"

lemma lit_match_exact [simp]: "lit_match U False p c \<longleftrightarrow> c = p"
  by (simp add: lit_match_def)

abbreviation once :: "atom \<Rightarrow> item" where
  "once a \<equiv> (a, Suc 0, Some (Suc 0))"

abbreviation star :: "atom \<Rightarrow> item" where
  "star a \<equiv> (a, 0, None)"

definition table_items :: "item list" where
  "table_items = [once (Lit pipe), star AnyChar, once (Lit pipe), star AnyChar, once (Lit pipe)]"

text \<open>The text that follows a line: nothing, or a line break and more text.\<close>

definition line_end :: "pystr \<Rightarrow> bool" where
  "line_end rest = (case rest of [] \<Rightarrow> True | c # cs \<Rightarrow> c = newline)"

text \<open>What is left of a line after its last pipe.\<close>

fun after_last_pipe :: "pystr \<Rightarrow> pystr" where
  "after_last_pipe [] = []"
| "after_last_pipe (c # l) =
     (if pipe \<in> set l then after_last_pipe l else if c = pipe then l else c # l)"

lemma match_once:
  "match_here U ic ((a, Suc 0, Some (Suc 0)) # its) s =
     (case s of [] \<Rightarrow> None | c # cs \<Rightarrow> if atom_match U ic a c then match_here U ic its cs else None)"
  by (cases s) (simp_all split: option.splits)

lemma match_star_Nil: "match_here U ic ((a, 0, None) # its) [] = match_here U ic its []"
  by simp

lemma match_star_Cons:
  "match_here U ic ((a, 0, None) # its) (c # cs) =
     (if atom_match U ic a c then
        (case match_here U ic ((a, 0, None) # its) cs of
           Some r \<Rightarrow> Some r
         | None \<Rightarrow> match_here U ic its (c # cs))
      else match_here U ic its (c # cs))"
  by simp

declare match_here.simps(2) [simp del]

lemma after_last_pipe_free: "pipe \<notin> set (after_last_pipe l)"
  by (induction l) auto

lemma after_last_pipe_suffix: "\<exists>a. l = a @ after_last_pipe l"
proof (induction l)
  case Nil
  then show ?case by simp
next
  case (Cons c l)
  then obtain a where a: "l = a @ after_last_pipe l" by blast
  show ?case
  proof (cases "pipe \<in> set l")
    case True
    then have "c # l = (c # a) @ after_last_pipe (c # l)" using a by simp
    then show ?thesis by blast
  next
    case False
    then have "c # l = (if c = pipe then [c] else []) @ after_last_pipe (c # l)" by simp
    then show ?thesis by blast
  qed
qed

text \<open>The last two items, \<^verbatim>\<open>.*\|\<close>, on a line.\<close>

lemma match_tail2:
  assumes "newline \<notin> set l" and "line_end rest"
  shows "match_here U False [star AnyChar, once (Lit pipe)] (l @ rest) =
           (if pipe \<in> set l then Some (after_last_pipe l @ rest) else None)"
  using assms(1)
proof (induction l)
  case Nil
  show ?case using assms(2)
    by (cases rest) (simp_all add: line_end_def match_once match_star_Nil match_star_Cons)
next
  case (Cons c l)
  from Cons.prems have c: "c \<noteq> newline" and l: "newline \<notin> set l" by auto
  note IH = Cons.IH [OF l]
  show ?case
    using c by (simp add: match_star_Cons IH match_once)
qed

text \<open>The last three items, \<^verbatim>\<open>\|.*\|\<close>.\<close>

lemma match_tail3:
  assumes "newline \<notin> set l" and "line_end rest"
  shows "match_here U False [once (Lit pipe), star AnyChar, once (Lit pipe)] (l @ rest) =
           (case l of
              [] \<Rightarrow> None
            | c # l' \<Rightarrow> if c = pipe \<and> pipe \<in> set l' then Some (after_last_pipe l' @ rest) else None)"
proof (cases l)
  case Nil
  then show ?thesis using assms(2)
    by (cases rest) (simp_all add: line_end_def match_once)
next
  case (Cons c l')
  then have "newline \<notin> set l'" using assms(1) by simp
  from match_tail2 [OF this assms(2)] show ?thesis
    by (simp add: Cons match_once)
qed

text \<open>The last four items, \<^verbatim>\<open>.*\|.*\|\<close>.\<close>

lemma match_tail4:
  assumes "newline \<notin> set l" and "line_end rest"
  shows "match_here U False [star AnyChar, once (Lit pipe), star AnyChar, once (Lit pipe)] (l @ rest) =
           (if 2 \<le> count_list l pipe then Some (after_last_pipe l @ rest) else None)"
  using assms(1)
proof (induction l)
  case Nil
  have "match_here U False [once (Lit pipe), star AnyChar, once (Lit pipe)] rest = None"
    using match_tail3 [of "[]" rest] assms(2) by simp
  then show ?case using assms(2)
    by (cases rest) (simp_all add: match_star_Nil match_star_Cons line_end_def)
next
  case (Cons c l)
  from Cons.prems have c: "c \<noteq> newline" and l: "newline \<notin> set l" by auto
  note IH = Cons.IH [OF l]
  have t3: "match_here U False [once (Lit pipe), star AnyChar, once (Lit pipe)] ((c # l) @ rest) =
      (if c = pipe \<and> pipe \<in> set l then Some (after_last_pipe l @ rest) else None)"
    using match_tail3 [of "c # l" rest] Cons.prems assms(2) by simp
  have step: "match_here U False [star AnyChar, once (Lit pipe), star AnyChar, once (Lit pipe)] ((c # l) @ rest) =
      (case match_here U False [star AnyChar, once (Lit pipe), star AnyChar, once (Lit pipe)] (l @ rest) of
         Some r \<Rightarrow> Some r
       | None \<Rightarrow> match_here U False [once (Lit pipe), star AnyChar, once (Lit pipe)] ((c # l) @ rest))"
    using c by (simp add: match_star_Cons cong: option.case_cong)
  show ?case
  proof (cases "2 \<le> count_list l pipe")
    case True
    then have "pipe \<in> set l" by (metis count_list_0_iff not_numeral_le_zero)
    then show ?thesis unfolding step IH using True by simp
  next
    case False
    show ?thesis
    proof (cases "c = pipe \<and> pipe \<in> set l")
      case True
      then have "count_list l pipe \<noteq> 0" by (simp add: count_list_0_iff)
      then show ?thesis unfolding step IH t3 using True False by simp
    next
      case False2: False
      have "\<not> 2 \<le> count_list (c # l) pipe"
      proof (cases "c = pipe")
        case True
        with False2 have "count_list l pipe = 0" by (simp add: count_list_0_iff)
        then show ?thesis using True by simp
      next
        case False3: False
        then show ?thesis using False by simp
      qed
      then show ?thesis unfolding step IH t3 using False False2 by simp
    qed
  qed
qed

text \<open>The whole pattern \<^verbatim>\<open>\|.*\|.*\|\<close>, anchored inside a line.\<close>

lemma match_table_items:
  assumes "newline \<notin> set l" and "line_end rest"
  shows "match_here U False table_items (l @ rest) =
           (case l of
              [] \<Rightarrow> None
            | c # l' \<Rightarrow>
                if c = pipe \<and> 2 \<le> count_list l' pipe then Some (after_last_pipe l' @ rest)
                else None)"
proof (cases l)
  case Nil
  then show ?thesis using assms(2)
    by (cases rest) (simp_all add: table_items_def line_end_def match_once)
next
  case (Cons c l')
  then have "newline \<notin> set l'" using assms(1) by simp
  from match_tail4 [OF this assms(2)] show ?thesis
    by (simp add: Cons table_items_def match_once)
qed

lemma compile_table_items: "compile table_re = Inr table_items"
  by code_simp

lemma findall_skip:
  "k \<le> length s \<Longrightarrow> findall_items U ic its k s = findall_items U ic its 0 (drop k s)"
proof (induction s arbitrary: k)
  case Nil
  then show ?case by simp
next
  case (Cons c cs)
  then show ?case by (cases k) simp_all
qed

lemma findall_no_match:
  "match_here U ic its (c # cs) = None \<Longrightarrow>
     findall_items U ic its 0 (c # cs) = findall_items U ic its 0 cs"
  by simp

lemma findall_match:
  assumes "match_here U ic its (c # cs) = Some r" and "c # cs = a @ r" and "a \<noteq> []"
  shows "findall_items U ic its 0 (c # cs) = a # findall_items U ic its 0 r"
proof -
  obtain a' where a: "a = c # a'" and cs: "cs = a' @ r"
    using assms(2,3) by (cases a) auto
  have n: "length (c # cs) - length r = Suc (length a')" using cs by simp
  have "findall_items U ic its (length a') cs = findall_items U ic its 0 (drop (length a') cs)"
    by (rule findall_skip) (simp add: cs)
  then show ?thesis
    using assms(1) n a cs by (simp add: Let_def)
qed

declare findall_items.simps(2) [simp del]

lemma table_needs_pipe: "pipe \<noteq> c \<Longrightarrow> match_here U False table_items (c # s) = None"
  by (auto simp add: table_items_def match_once)

lemma table_empty: "match_here U False table_items [] = None"
  by (simp add: table_items_def match_once)

lemma findall_no_pipe:
  "pipe \<notin> set b \<Longrightarrow>
     findall_items U False table_items 0 (b @ rest) = findall_items U False table_items 0 rest"
  by (induction b) (simp_all add: table_needs_pipe findall_no_match)

text \<open>A line with fewer than three pipes holds no match.\<close>

lemma findall_line_few:
  assumes "line_end rest"
  shows "newline \<notin> set l \<Longrightarrow> count_list l pipe < 3 \<Longrightarrow>
     findall_items U False table_items 0 (l @ rest) = findall_items U False table_items 0 rest"
proof (induction l)
  case Nil
  then show ?case by simp
next
  case (Cons c l)
  have "match_here U False table_items ((c # l) @ rest) = None"
    using match_table_items [OF Cons.prems(1) assms] Cons.prems(2) by (auto split: if_splits)
  then have "findall_items U False table_items 0 ((c # l) @ rest)
      = findall_items U False table_items 0 (l @ rest)"
    by (simp add: findall_no_match)
  moreover have "findall_items U False table_items 0 (l @ rest)
      = findall_items U False table_items 0 rest"
    using Cons by (simp split: if_splits)
  ultimately show ?case by simp
qed

text \<open>A line with three pipes or more holds exactly one match.\<close>

lemma findall_line_many:
  assumes "line_end rest"
  shows "newline \<notin> set l \<Longrightarrow> 3 \<le> count_list l pipe \<Longrightarrow>
     length (findall_items U False table_items 0 (l @ rest))
       = Suc (length (findall_items U False table_items 0 rest))"
proof (induction l)
  case Nil
  then show ?case by simp
next
  case (Cons c l)
  show ?case
  proof (cases "pipe = c")
    case True
    then have two: "2 \<le> count_list l pipe" using Cons.prems(2) by auto
    have m: "match_here U False table_items (c # l @ rest) = Some (after_last_pipe l @ rest)"
      using match_table_items [OF Cons.prems(1) assms] True two by auto
    obtain a where a: "l = a @ after_last_pipe l"
      using after_last_pipe_suffix by blast
    then have "l @ rest = a @ after_last_pipe l @ rest" by (metis append_assoc)
    then have eq: "c # l @ rest = (c # a) @ (after_last_pipe l @ rest)" by simp
    have "findall_items U False table_items 0 (c # l @ rest)
        = (c # a) # findall_items U False table_items 0 (after_last_pipe l @ rest)"
      by (rule findall_match [OF m eq]) simp
    moreover have "findall_items U False table_items 0 (after_last_pipe l @ rest)
        = findall_items U False table_items 0 rest"
      by (rule findall_no_pipe) (rule after_last_pipe_free)
    ultimately show ?thesis by simp
  next
    case False
    then have "findall_items U False table_items 0 ((c # l) @ rest)
        = findall_items U False table_items 0 (l @ rest)"
      by (simp add: table_needs_pipe findall_no_match)
    then show ?thesis using Cons False by simp
  qed
qed

lemma findall_line_break:
  "findall_items U False table_items 0 (newline # s) = findall_items U False table_items 0 s"
  by (simp add: table_needs_pipe findall_no_match)

lemma split_on_cases:
  "(sep \<notin> set s \<and> split_on sep s = [s])
   \<or> (\<exists>l s'. s = l @ sep # s' \<and> sep \<notin> set l \<and> split_on sep s = l # split_on sep s')"
proof (induction s)
  case Nil
  then show ?case by simp
next
  case (Cons c s)
  show ?case
  proof (cases "c = sep")
    case True
    then have "c # s = [] @ sep # s \<and> sep \<notin> set [] \<and> split_on sep (c # s) = [] # split_on sep s"
      by simp
    then show ?thesis by blast
  next
    case False
    from Cons show ?thesis
    proof
      assume "sep \<notin> set s \<and> split_on sep s = [s]"
      then show ?thesis using False by simp
    next
      assume "\<exists>l s'. s = l @ sep # s' \<and> sep \<notin> set l \<and> split_on sep s = l # split_on sep s'"
      then obtain l s' where "s = l @ sep # s'" "sep \<notin> set l" "split_on sep s = l # split_on sep s'"
        by blast
      then have "c # s = (c # l) @ sep # s' \<and> sep \<notin> set (c # l)
          \<and> split_on sep (c # s) = (c # l) # split_on sep s'"
        using False by simp
      then show ?thesis by blast
    qed
  qed
qed

text \<open>\<^verbatim>\<open>re.findall\<close> of the table pattern finds one match per line with three pipes.\<close>

lemma findall_table_rows:
  "length (findall_items U False table_items 0 content)
     = length (filter (\<lambda>l. 3 \<le> count_list l pipe) (split_on newline content))"
proof (induction content rule: length_induct)
  case (1 content)
  from split_on_cases [of newline content] show ?case
  proof
    assume a: "newline \<notin> set content \<and> split_on newline content = [content]"
    have e: "line_end []" by (simp add: line_end_def)
    show ?thesis
    proof (cases "3 \<le> count_list content pipe")
      case True
      then show ?thesis
        using findall_line_many [OF e, of content] a by (simp add: table_empty)
    next
      case False
      then show ?thesis
        using findall_line_few [OF e, of content] a by (simp add: table_empty)
    qed
  next
    assume "\<exists>l s'. content = l @ newline # s' \<and> newline \<notin> set l
        \<and> split_on newline content = l # split_on newline s'"
    then obtain l s' where c: "content = l @ newline # s'" and l: "newline \<notin> set l"
      and sp: "split_on newline content = l # split_on newline s'"
      by blast
    have e: "line_end (newline # s')" by (simp add: line_end_def)
    have IH: "length (findall_items U False table_items 0 s')
        = length (filter (\<lambda>l. 3 \<le> count_list l pipe) (split_on newline s'))"
      using 1 c by simp
    show ?thesis
    proof (cases "3 \<le> count_list l pipe")
      case True
      then show ?thesis
        using findall_line_many [OF e l] IH by (simp add: c sp [unfolded c] findall_line_break)
    next
      case False
      then show ?thesis
        using findall_line_few [OF e l] IH by (simp add: c sp [unfolded c] findall_line_break)
    qed
  qed
qed

text \<open>
  C5, amended. For every report text the duplicate-table check emits exactly one finding:
  a warning if more than five lines of the text hold three or more pipe characters each,
  and a pass otherwise. Lines are the stretches between line feeds.
\<close>

theorem table_rows:
  "check_duplicate_tables U content v =
     (let rows = length (filter (\<lambda>l. 3 \<le> count_list l (ch CHR ''|'')) (split_on newline content))
      in Inr (if 5 < rows then add_warning (tables_multiple rows) v
              else add_passed tables_single v))"
  by (simp add: check_duplicate_tables_def re_findall_def compile_table_items
        findall_table_rows Let_def)

definition small_table :: pystr where
  "small_table = str ''|a|b|'' @ [newline] @ str ''|-|-|'' @ [newline] @ str ''|c|d|''
     @ [newline] @ str ''x | y''"

theorem table_rows_witness:
  "\<forall>U. check_duplicate_tables U small_table init = Inr (add_passed tables_single init)"
proof
  fix U
  have "length (filter (\<lambda>l. 3 \<le> count_list l (ch CHR ''|'')) (split_on newline small_table)) = 3"
    by code_simp
  then show "check_duplicate_tables U small_table init = Inr (add_passed tables_single init)"
    using table_rows [of U small_table init] by simp
qed

subsection \<open>URL format\<close>

text \<open>
  C3. The check warns about \<^verbatim>\<open>https://csrc.nist.gov/pubs/sp/800/218/a/final\<close>, the
  address the repository's own catalogue gives for SP 800-218A: the segment of the pattern
  excludes the slash, so a sub-revision component is not accepted. An address without it
  passes, and one without \<^verbatim>\<open>/final\<close> is warned about.
\<close>

theorem sub_revision_url_warned:
  "check_urls U (str ''https://csrc.nist.gov/pubs/sp/800/218/a/final'') init =
     Inr (add_warning (url_suspect (str ''https://csrc.nist.gov/pubs/sp/800/218/a/final'')) init)
   \<and> check_urls U (str ''https://csrc.nist.gov/pubs/sp/800/218/final'') init =
     Inr (add_passed (url_correct (str ''https://csrc.nist.gov/pubs/sp/800/218/final'')) init)
   \<and> check_urls U (str ''https://csrc.nist.gov/pubs/sp/800/210/'') init =
     Inr (add_warning (url_suspect (str ''https://csrc.nist.gov/pubs/sp/800/210/'')) init)"
  by code_simp

subsection \<open>Publication dates\<close>

text \<open>
  C10. The entry \<open>csf-2.0\<close> of the table is searched for as \<^verbatim>\<open>800-2.0\<close>, whose dot
  compiles to the wildcard, and as \<^verbatim>\<open>SP csf 2.0\<close>. A text that holds \<open>800-210\<close> next
  to the date of CSF 2.0 gets a pass attributed to \<open>csf-2.0\<close>, and a text that holds
  \<open>800-230\<close> next to another date gets a warning attributed to it, though neither text
  matches the second pattern; these are the only findings of the check on those texts.
\<close>

theorem csf_wildcard:
  "(str ''csf-2.0'', \<lparr>date = str ''2024-02-26'', title = str ''Cybersecurity Framework 2.0''\<rparr>)
     \<in> set verified_pubs
   \<and> pub_patterns (str ''csf-2.0'') = Inr [str ''800-2.0'', str ''SP csf 2.0'']
   \<and> compile (str ''800-2.0'') =
       Inr [(Lit (ch CHR ''8''), 1, Some 1), (Lit (ch CHR ''0''), 1, Some 1),
            (Lit (ch CHR ''0''), 1, Some 1), (Lit (ch CHR ''-''), 1, Some 1),
            (Lit (ch CHR ''2''), 1, Some 1), (AnyChar, 1, Some 1),
            (Lit (ch CHR ''0''), 1, Some 1)]
   \<and> re_search U (str ''SP csf 2.0'') (str ''800-210 2024-02-26'') True = Inr None
   \<and> re_search U (str ''SP csf 2.0'') (str ''800-230 2023-01-01'') True = Inr None
   \<and> check_publication_dates U (str ''800-210 2024-02-26'') init =
       Inr (add_passed (date_correct (str ''csf-2.0'') (str ''2024-02-26'')) init)
   \<and> check_publication_dates U (str ''800-230 2023-01-01'') init =
       Inr (add_warning
              (date_suspect (str ''csf-2.0'') (str ''2024-02-26'') (str ''2023-01-01'')) init)"
  by code_simp

text \<open>
  Tables that know, beyond ASCII, the fullwidth digits U+FF10 to U+FF19 and nothing else.
  The fullwidth digits are decimal digits in every version of Unicode, and none of them is
  equal to an ASCII character under \<^verbatim>\<open>re.IGNORECASE\<close>.
\<close>

definition fullwidth_digits :: unicode where
  "fullwidth_digits =
     \<lparr>uni_decimal = (\<lambda>c. 0xFF10 \<le> c \<and> c \<le> 0xFF19),
      uni_space = (\<lambda>c. False),
      uni_ignorecase = (\<lambda>p c. False)\<rparr>"

text \<open>The date 2024-07-25 written with fullwidth digits.\<close>

definition fullwidth_date :: pystr where
  "fullwidth_date =
     [0xFF12, 0xFF10, 0xFF12, 0xFF14, ch CHR ''-'', 0xFF10, 0xFF17, ch CHR ''-'', 0xFF12, 0xFF15]"

text \<open>
  C2, as stated, fails. A text that mentions SP 800-218A with no date nearby gets no
  finding for it; a text that holds both forms of the identifier gets two; and under
  tables with the fullwidth digits, a text whose only date-shaped string is written in
  them, so that no ISO-format date is near, gets a warning that quotes that string.
\<close>

theorem date_findings_counterexample:
  "(\<forall>U. re_search U (str ''800-218A'') (str ''see SP 800-218A'') True = Inr (Some (7, 15))
      \<and> check_pub U (str ''see SP 800-218A'')
           (str ''800-218A'',
            \<lparr>date = str ''2024-07-26'', title = str ''SSDF Community Profile for Generative AI''\<rparr>)
           init
         = Inr init
      \<and> check_pub U (str ''SP 800 218A 2024-07-26 800-218A'')
           (str ''800-218A'',
            \<lparr>date = str ''2024-07-26'', title = str ''SSDF Community Profile for Generative AI''\<rparr>)
           init
         = Inr \<lparr>errors = [], warnings = [],
                passed_checks = [date_correct (str ''800-218A'') (str ''2024-07-26''),
                                 date_correct (str ''800-218A'') (str ''2024-07-26'')]\<rparr>)
   \<and> check_pub fullwidth_digits (str ''SP 800-218A '' @ fullwidth_date)
        (str ''800-218A'',
         \<lparr>date = str ''2024-07-26'', title = str ''SSDF Community Profile for Generative AI''\<rparr>)
        init
      = Inr (add_warning
               (date_suspect (str ''800-218A'') (str ''2024-07-26'') fullwidth_date) init)"
proof
  show "\<forall>U. re_search U (str ''800-218A'') (str ''see SP 800-218A'') True = Inr (Some (7, 15))
      \<and> check_pub U (str ''see SP 800-218A'')
           (str ''800-218A'',
            \<lparr>date = str ''2024-07-26'', title = str ''SSDF Community Profile for Generative AI''\<rparr>)
           init
         = Inr init
      \<and> check_pub U (str ''SP 800 218A 2024-07-26 800-218A'')
           (str ''800-218A'',
            \<lparr>date = str ''2024-07-26'', title = str ''SSDF Community Profile for Generative AI''\<rparr>)
           init
         = Inr \<lparr>errors = [], warnings = [],
                passed_checks = [date_correct (str ''800-218A'') (str ''2024-07-26''),
                                 date_correct (str ''800-218A'') (str ''2024-07-26'')]\<rparr>"
  proof
    fix U
    show "re_search U (str ''800-218A'') (str ''see SP 800-218A'') True = Inr (Some (7, 15))
      \<and> check_pub U (str ''see SP 800-218A'')
           (str ''800-218A'',
            \<lparr>date = str ''2024-07-26'', title = str ''SSDF Community Profile for Generative AI''\<rparr>)
           init
         = Inr init
      \<and> check_pub U (str ''SP 800 218A 2024-07-26 800-218A'')
           (str ''800-218A'',
            \<lparr>date = str ''2024-07-26'', title = str ''SSDF Community Profile for Generative AI''\<rparr>)
           init
         = Inr \<lparr>errors = [], warnings = [],
                passed_checks = [date_correct (str ''800-218A'') (str ''2024-07-26''),
                                 date_correct (str ''800-218A'') (str ''2024-07-26'')]\<rparr>"
      by code_simp
  qed
  show "check_pub fullwidth_digits (str ''SP 800-218A '' @ fullwidth_date)
        (str ''800-218A'',
         \<lparr>date = str ''2024-07-26'', title = str ''SSDF Community Profile for Generative AI''\<rparr>)
        init
      = Inr (add_warning
               (date_suspect (str ''800-218A'') (str ''2024-07-26'') fullwidth_date) init)"
    by code_simp
qed

text \<open>The normalized form of an identifier: \<^verbatim>\<open>SP\<close>, a space, and the identifier with spaces for hyphens.\<close>

definition sp_form :: "pystr \<Rightarrow> pystr" where
  "sp_form pub_id = str ''SP '' @ replace (ch CHR ''-'') (ch CHR '' '') pub_id"

lemma numeric_patterns:
  "list_all (\<lambda>(pub_id, info).
      pub_id = str ''csf-2.0''
      \<or> (pub_patterns pub_id = Inr [pub_id, sp_form pub_id]
         \<and> compile pub_id = Inr (map (\<lambda>c. (Lit c, 1, Some 1)) pub_id)
         \<and> compile (sp_form pub_id) = Inr (map (\<lambda>c. (Lit c, 1, Some 1)) (sp_form pub_id))))
     verified_pubs"
  by code_simp

lemma check_pattern_cases:
  assumes "compile pattern = Inr its"
  shows "case re_search U pattern content True of
           Inl e \<Rightarrow> False
         | Inr None \<Rightarrow> check_pattern U content pub_id info pattern u = Inr u
         | Inr (Some (st, en)) \<Rightarrow>
             (case re_findall U date_re (slice content (st - 200) (min (length content) (en + 200))) of
                Inl e \<Rightarrow> False
              | Inr dates \<Rightarrow>
                  check_pattern U content pub_id info pattern u =
                    Inr (if date info \<in> set dates then add_passed (date_correct pub_id (date info)) u
                         else if dates = [] then u
                         else add_warning (date_suspect pub_id (date info) (hd dates)) u))"
proof (cases "search_items U True its content")
  case None
  then show ?thesis by (simp add: check_pattern_def re_search_def assms)
next
  case (Some m)
  obtain st en where m: "m = (st, en)" by (cases m)
  let ?ds = "findall_items U False [(Digit, 4, Some 4), (Lit (ch CHR ''-''), 1, Some 1), (Digit, 2, Some 2),
          (Lit (ch CHR ''-''), 1, Some 1), (Digit, 2, Some 2)] 0 (slice content (st - 200) (min (length content) (en + 200)))"
  show ?thesis
  proof (cases ?ds)
    case Nil
    then show ?thesis using Some m
      by (simp add: check_pattern_def re_search_def assms get_context_def re_findall_def compile_date_re)
  next
    case (Cons d ds)
    then show ?thesis using Some m
      by (simp add: check_pattern_def re_search_def assms get_context_def re_findall_def compile_date_re)
  qed
qed

text \<open>
  C2, amended. Take any report text and any entry of the table keyed by an 800-series
  identifier. Its two patterns are the identifier and the normalized form, both made of
  literal characters only, and the check tries them one after the other, ignoring case.
  A pattern that does not match adds nothing. A pattern that matches adds at most one
  finding, decided by the date-shaped strings that \<^verbatim>\<open>\d{4}-\d{2}-\d{2}\<close> finds in the
  window reaching 200 characters to either side of that pattern's first match: a pass if
  the date of the entry is among them, a warning naming the expected date and the first
  string found if there are some but not that date, and nothing if there is none. An
  entry whose patterns both fail to match gets no finding. The digits of a date-shaped
  string are whatever \<^verbatim>\<open>\d\<close> matches.
\<close>

theorem date_consistency:
  assumes "(pub_id, info) \<in> set verified_pubs" and "pub_id \<noteq> str ''csf-2.0''"
  shows "\<exists>v1 v2.
           pub_patterns pub_id = Inr [pub_id, sp_form pub_id]
         \<and> compile pub_id = Inr (map (\<lambda>c. (Lit c, 1, Some 1)) pub_id)
         \<and> compile (sp_form pub_id) = Inr (map (\<lambda>c. (Lit c, 1, Some 1)) (sp_form pub_id))
         \<and> check_pattern U content pub_id info pub_id v = Inr v1
         \<and> check_pattern U content pub_id info (sp_form pub_id) v1 = Inr v2
         \<and> check_pub U content (pub_id, info) v = Inr v2
         \<and> (\<forall>p \<in> {pub_id, sp_form pub_id}. \<forall>u.
              case re_search U p content True of
                Inl e \<Rightarrow> False
              | Inr None \<Rightarrow> check_pattern U content pub_id info p u = Inr u
              | Inr (Some (st, en)) \<Rightarrow>
                  (case re_findall U date_re
                          (slice content (st - 200) (min (length content) (en + 200))) of
                     Inl e \<Rightarrow> False
                   | Inr dates \<Rightarrow>
                       check_pattern U content pub_id info p u =
                         Inr (if date info \<in> set dates
                              then add_passed (date_correct pub_id (date info)) u
                              else if dates = [] then u
                              else add_warning (date_suspect pub_id (date info) (hd dates)) u)))"
proof -
  from numeric_patterns assms
  have ps: "pub_patterns pub_id = Inr [pub_id, sp_form pub_id]"
    and i1: "compile pub_id = Inr (map (\<lambda>c. (Lit c, 1, Some 1)) pub_id)"
    and i2: "compile (sp_form pub_id) = Inr (map (\<lambda>c. (Lit c, 1, Some 1)) (sp_form pub_id))"
    by (auto simp: list_all_iff)
  obtain v1 where v1: "check_pattern U content pub_id info pub_id v = Inr v1"
    using appends_check_pattern [OF i1, of U content pub_id info] unfolding appends_def by metis
  obtain v2 where v2: "check_pattern U content pub_id info (sp_form pub_id) v1 = Inr v2"
    using appends_check_pattern [OF i2, of U content pub_id info] unfolding appends_def by metis
  have pub: "check_pub U content (pub_id, info) v = Inr v2"
    by (simp add: check_pub_def ps v1 v2)
  have "\<forall>p \<in> {pub_id, sp_form pub_id}. \<forall>u.
              case re_search U p content True of
                Inl e \<Rightarrow> False
              | Inr None \<Rightarrow> check_pattern U content pub_id info p u = Inr u
              | Inr (Some (st, en)) \<Rightarrow>
                  (case re_findall U date_re
                          (slice content (st - 200) (min (length content) (en + 200))) of
                     Inl e \<Rightarrow> False
                   | Inr dates \<Rightarrow>
                       check_pattern U content pub_id info p u =
                         Inr (if date info \<in> set dates
                              then add_passed (date_correct pub_id (date info)) u
                              else if dates = [] then u
                              else add_warning (date_suspect pub_id (date info) (hd dates)) u))"
    using check_pattern_cases [OF i1] check_pattern_cases [OF i2] by blast
  with ps i1 i2 v1 v2 pub show ?thesis by blast
qed

theorem date_consistency_witness:
  "\<forall>U. (str ''800-218A'',
         \<lparr>date = str ''2024-07-26'', title = str ''SSDF Community Profile for Generative AI''\<rparr>)
        \<in> set verified_pubs
   \<and> str ''800-218A'' \<noteq> str ''csf-2.0''
   \<and> check_pub U (str ''SP 800-218A (2024-07-26)'')
        (str ''800-218A'',
         \<lparr>date = str ''2024-07-26'', title = str ''SSDF Community Profile for Generative AI''\<rparr>)
        init
      = Inr (add_passed (date_correct (str ''800-218A'') (str ''2024-07-26'')) init)
   \<and> check_pub U (str ''SP 800-218A (2024-07-25)'')
        (str ''800-218A'',
         \<lparr>date = str ''2024-07-26'', title = str ''SSDF Community Profile for Generative AI''\<rparr>)
        init
      = Inr (add_warning
               (date_suspect (str ''800-218A'') (str ''2024-07-26'') (str ''2024-07-25'')) init)
   \<and> check_pub U (str ''SP 800-53 only'')
        (str ''800-218A'',
         \<lparr>date = str ''2024-07-26'', title = str ''SSDF Community Profile for Generative AI''\<rparr>)
        init
      = Inr init"
proof
  fix U
  let ?id = "str ''800-218A''"
  let ?info = "\<lparr>date = str ''2024-07-26'', title = str ''SSDF Community Profile for Generative AI''\<rparr>"
  have mem: "(?id, ?info) \<in> set verified_pubs"
    by (simp add: verified_pubs_def)
  have ne: "?id \<noteq> str ''csf-2.0''" by simp
  have found: "check_pub U c (?id, ?info) init =
      Inr (if str ''2024-07-26'' \<in> set ds
           then add_passed (date_correct ?id (str ''2024-07-26'')) init
           else if ds = [] then init
           else add_warning (date_suspect ?id (str ''2024-07-26'') (hd ds)) init)"
    if s1: "re_search U ?id c True = Inr (Some (st, en))"
      and f1: "re_findall U date_re (slice c (st - 200) (min (length c) (en + 200))) = Inr ds"
      and s2: "re_search U (sp_form ?id) c True = Inr None"
    for c st en ds
  proof -
    from date_consistency [OF mem ne, of U c init] obtain v1 v2
      where c1: "check_pattern U c ?id ?info ?id init = Inr v1"
        and c2: "check_pattern U c ?id ?info (sp_form ?id) v1 = Inr v2"
        and r: "check_pub U c (?id, ?info) init = Inr v2"
        and ch: "\<forall>p \<in> {?id, sp_form ?id}. \<forall>u.
              case re_search U p c True of
                Inl e \<Rightarrow> False
              | Inr None \<Rightarrow> check_pattern U c ?id ?info p u = Inr u
              | Inr (Some (st, en)) \<Rightarrow>
                  (case re_findall U date_re (slice c (st - 200) (min (length c) (en + 200))) of
                     Inl e \<Rightarrow> False
                   | Inr dates \<Rightarrow>
                       check_pattern U c ?id ?info p u =
                         Inr (if date ?info \<in> set dates
                              then add_passed (date_correct ?id (date ?info)) u
                              else if dates = [] then u
                              else add_warning (date_suspect ?id (date ?info) (hd dates)) u))"
      by blast
    from ch [rule_format, of ?id init] have a: "v1 =
        (if str ''2024-07-26'' \<in> set ds
         then add_passed (date_correct ?id (str ''2024-07-26'')) init
         else if ds = [] then init
         else add_warning (date_suspect ?id (str ''2024-07-26'') (hd ds)) init)"
      using c1 by (auto simp add: s1 f1 split: if_splits)
    from ch [rule_format, of "sp_form ?id" v1] have "v2 = v1"
      using c2 by (simp add: s2)
    with r a show ?thesis by simp
  qed
  have absent: "check_pub U c (?id, ?info) init = Inr init"
    if s1: "re_search U ?id c True = Inr None"
      and s2: "re_search U (sp_form ?id) c True = Inr None"
    for c
  proof -
    from date_consistency [OF mem ne, of U c init] obtain v1 v2
      where c1: "check_pattern U c ?id ?info ?id init = Inr v1"
        and c2: "check_pattern U c ?id ?info (sp_form ?id) v1 = Inr v2"
        and r: "check_pub U c (?id, ?info) init = Inr v2"
        and ch: "\<forall>p \<in> {?id, sp_form ?id}. \<forall>u.
              case re_search U p c True of
                Inl e \<Rightarrow> False
              | Inr None \<Rightarrow> check_pattern U c ?id ?info p u = Inr u
              | Inr (Some (st, en)) \<Rightarrow>
                  (case re_findall U date_re (slice c (st - 200) (min (length c) (en + 200))) of
                     Inl e \<Rightarrow> False
                   | Inr dates \<Rightarrow>
                       check_pattern U c ?id ?info p u =
                         Inr (if date ?info \<in> set dates
                              then add_passed (date_correct ?id (date ?info)) u
                              else if dates = [] then u
                              else add_warning (date_suspect ?id (date ?info) (hd dates)) u))"
      by blast
    from ch [rule_format, of ?id init] have "v1 = init" using c1 by (simp add: s1)
    moreover from ch [rule_format, of "sp_form ?id" v1] have "v2 = v1" using c2 by (simp add: s2)
    ultimately show ?thesis using r by simp
  qed
  have e1: "re_search U ?id (str ''SP 800-218A (2024-07-26)'') True = Inr (Some (3, 11))"
    "re_findall U date_re (slice (str ''SP 800-218A (2024-07-26)'') (3 - 200)
        (min (length (str ''SP 800-218A (2024-07-26)'')) (11 + 200))) = Inr [str ''2024-07-26'']"
    "re_search U (sp_form ?id) (str ''SP 800-218A (2024-07-26)'') True = Inr None"
    by code_simp+
  have e2: "re_search U ?id (str ''SP 800-218A (2024-07-25)'') True = Inr (Some (3, 11))"
    "re_findall U date_re (slice (str ''SP 800-218A (2024-07-25)'') (3 - 200)
        (min (length (str ''SP 800-218A (2024-07-25)'')) (11 + 200))) = Inr [str ''2024-07-25'']"
    "re_search U (sp_form ?id) (str ''SP 800-218A (2024-07-25)'') True = Inr None"
    by code_simp+
  have e3: "re_search U ?id (str ''SP 800-53 only'') True = Inr None"
    "re_search U (sp_form ?id) (str ''SP 800-53 only'') True = Inr None"
    by code_simp+
  from found [OF e1] found [OF e2] absent [OF e3] mem
  show "(?id, ?info) \<in> set verified_pubs
   \<and> ?id \<noteq> str ''csf-2.0''
   \<and> check_pub U (str ''SP 800-218A (2024-07-26)'') (?id, ?info) init
      = Inr (add_passed (date_correct ?id (str ''2024-07-26'')) init)
   \<and> check_pub U (str ''SP 800-218A (2024-07-25)'') (?id, ?info) init
      = Inr (add_warning (date_suspect ?id (str ''2024-07-26'') (str ''2024-07-25'')) init)
   \<and> check_pub U (str ''SP 800-53 only'') (?id, ?info) init
      = Inr init"
    by simp
qed

end
